theory Spec2Isabelle
  imports Complex_Main
begin

section \<open>The Nelder-Mead minimiser of smelt (optimization::NelderMead)\<close>

text \<open>
  The development embeds the three \<open>minimize\<close> overloads and \<open>reflect\<close> of
  \<open>optimization::NelderMead\<close> (src/unnamed/part_000).

  Modelling decisions.
  \<^item> A C++ \<open>double\<close> is a HOL \<open>real\<close>: rounding, infinities and NaN are not modelled.
    Every property below is a property of the control flow, of the index arithmetic or of
    exact real arithmetic.
  \<^item> \<open>std::vector<double>\<close> is \<open>real list\<close>, the simplex a list of rows.
    \<open>operator[]\<close> outside the vector is undefined behaviour in C++; the model makes every
    element access a checked one that fails with \<open>OutOfRange\<close>, so that an access out of
    range is a visible branch of the model.
  \<^item> \<open>unsigned int\<close> indices and the evaluation counter are \<open>nat\<close> (the counter is only
    decremented right after it was increased by two, so it never wraps).
  \<^item> The class declaration is not part of the sources: the constants \<open>EPSILON_\<close>,
    \<open>function_tol_\<close> and \<open>MAX_ITERS_\<close> are fields of a configuration record, and the
    helper \<open>dimension_sums\<close> is modelled from the specification.
  \<^item> The members of the object and the local \<open>simplex_sums\<close> of \<open>minimize\<close> form one
    record that is passed through the run. \<open>reflect\<close> receives \<open>simplex_\<close>,
    \<open>func_vals_\<close> and \<open>simplex_sums\<close> by reference at each of its three call sites, so it
    acts on the same record.
\<close>

subsection \<open>Vectors, failures, loops\<close>

type_synonym vec = "real list"

type_synonym matrix = "real list list"

text \<open>
  \<open>MaxIterationsExceeded\<close> is the \<open>std::runtime_error\<close> of line 106. \<open>OutOfRange\<close>
  stands for an element access outside a vector. \<open>InvalidInputError\<close> is the failure the
  specification names for a malformed simplex; no statement of the source raises it.
\<close>

datatype error = OutOfRange | MaxIterationsExceeded | InvalidInputError

definition and_then :: "error + 'a \<Rightarrow> ('a \<Rightarrow> error + 'b) \<Rightarrow> error + 'b" where
  "and_then m k = (case m of Inl e \<Rightarrow> Inl e | Inr x \<Rightarrow> k x)"

text \<open>\<open>xs[i]\<close> as a read and as a write.\<close>

definition read_at :: "'a list \<Rightarrow> nat \<Rightarrow> error + 'a" where
  "read_at xs i = (if i < length xs then Inr (xs ! i) else Inl OutOfRange)"

definition write_at :: "'a list \<Rightarrow> nat \<Rightarrow> 'a \<Rightarrow> error + 'a list" where
  "write_at xs i v = (if i < length xs then Inr (xs[i := v]) else Inl OutOfRange)"

text \<open>\<open>m[i][j]\<close> as a read and as a write.\<close>

definition read_at2 :: "'a list list \<Rightarrow> nat \<Rightarrow> nat \<Rightarrow> error + 'a" where
  "read_at2 m i j = and_then (read_at m i) (\<lambda>row. read_at row j)"

definition write_at2 :: "'a list list \<Rightarrow> nat \<Rightarrow> nat \<Rightarrow> 'a \<Rightarrow> error + 'a list list" where
  "write_at2 m i j v = and_then (read_at m i) (\<lambda>row. and_then (write_at row j v) (\<lambda>row'. write_at m i row'))"

text \<open>
  \<open>for (unsigned int i = 0; i < n; ++i) body\<close>: the body is run for \<open>i = 0, 1, ..., n - 1\<close>
  on the loop's variables, and the first failure ends the loop.
\<close>

fun iterate :: "nat list \<Rightarrow> (nat \<Rightarrow> 's \<Rightarrow> error + 's) \<Rightarrow> 's \<Rightarrow> error + 's" where
  "iterate [] body s = Inr s"
| "iterate (i # is) body s = and_then (body i s) (iterate is body)"

definition for_loop :: "nat \<Rightarrow> (nat \<Rightarrow> 's \<Rightarrow> error + 's) \<Rightarrow> 's \<Rightarrow> error + 's" where
  "for_loop n body s = iterate [0..<n] body s"

subsection \<open>The object\<close>

record config =
  EPSILON :: real
  function_tol :: real
  MAX_ITERS :: nat

record nelder_mead =
  num_dimensions :: nat
  num_points :: nat
  num_evals :: nat
  simplex :: matrix
  func_vals :: vec
  func_min :: real
  simplex_sums :: vec

subsection \<open>dimension_sums\<close>

text \<open>
  Modelled from the spec: \<open>optimization::NelderMead::dimension_sums\<close> is called at lines
  65 and 142 and defined nowhere in the sources. The specification describes its result
  as "a cached vector of per-coordinate sums across all vertices": one sum for each of
  the \<open>num_dimensions_\<close> coordinates, over the \<open>num_points_\<close> vertices.
\<close>

definition add_coordinate :: "matrix \<Rightarrow> nat \<Rightarrow> nat \<Rightarrow> real \<Rightarrow> error + real" where
  "add_coordinate sx j i acc = and_then (read_at2 sx i j) (\<lambda>x. Inr (acc + x))"

definition sum_dimension :: "nat \<Rightarrow> matrix \<Rightarrow> nat \<Rightarrow> vec \<Rightarrow> error + vec" where
  "sum_dimension np sx j dsums =
     and_then (for_loop np (add_coordinate sx j) 0) (\<lambda>acc. write_at dsums j acc)"

definition dimension_sums :: "nat \<Rightarrow> nat \<Rightarrow> matrix \<Rightarrow> error + vec" where
  "dimension_sums nd np sx = for_loop nd (sum_dimension np sx) (replicate nd 0)"

subsection \<open>reflect (lines 150-178)\<close>

text \<open>Lines 157-164: the trial vertex \<open>evaluations\<close>; line 163 is the body of the loop.\<close>

definition trial_coordinate :: "nelder_mead \<Rightarrow> nat \<Rightarrow> real \<Rightarrow> real \<Rightarrow> nat \<Rightarrow> vec \<Rightarrow> error + vec" where
  "trial_coordinate s index_worst factor1 factor2 j evaluations =
     and_then (read_at (simplex_sums s) j) (\<lambda>sum_j.
     and_then (read_at2 (simplex s) index_worst j) (\<lambda>worst_j.
     write_at evaluations j (sum_j * factor1 - worst_j * factor2)))"

definition trial_point :: "nelder_mead \<Rightarrow> nat \<Rightarrow> real \<Rightarrow> error + vec" where
  "trial_point s index_worst factor =
     (let factor1 = (1 - factor) / real (num_dimensions s);
          factor2 = factor1 - factor
      in for_loop (num_dimensions s) (trial_coordinate s index_worst factor1 factor2)
           (replicate (num_dimensions s) 0))"

text \<open>Lines 171-174: the trial vertex replaces the worst one, the sums follow.\<close>

definition commit_point :: "nat \<Rightarrow> vec \<Rightarrow> nat \<Rightarrow> matrix \<times> vec \<Rightarrow> error + matrix \<times> vec" where
  "commit_point index_worst evaluations j = (\<lambda>(sx, dsums).
     and_then (read_at dsums j) (\<lambda>sum_j.
     and_then (read_at evaluations j) (\<lambda>e_j.
     and_then (read_at2 sx index_worst j) (\<lambda>worst_j.
     and_then (write_at dsums j (sum_j + (e_j - worst_j))) (\<lambda>dsums'.
     and_then (write_at2 sx index_worst j e_j) (\<lambda>sx'.
     Inr (sx', dsums')))))))"

definition reflect ::
  "(vec \<Rightarrow> real) \<Rightarrow> nat \<Rightarrow> real \<Rightarrow> nelder_mead \<Rightarrow> error + real \<times> nelder_mead" where
  "reflect objective_function index_worst factor s =
     and_then (trial_point s index_worst factor) (\<lambda>evaluations.
     let objective_value = objective_function evaluations in
     and_then (read_at (func_vals s) index_worst) (\<lambda>worst_value.
     if objective_value < worst_value then
       and_then (write_at (func_vals s) index_worst objective_value) (\<lambda>vals'.
       and_then (for_loop (num_dimensions s) (commit_point index_worst evaluations)
                   (simplex s, simplex_sums s)) (\<lambda>(sx', dsums').
       Inr (objective_value, s\<lparr>simplex := sx', func_vals := vals', simplex_sums := dsums'\<rparr>)))
     else Inr (objective_value, s)))"

subsection \<open>The loop body of minimize (lines 69-147)\<close>

text \<open>Lines 70-87: one pass over the values; the result is (low, high, next_high).\<close>

definition rank_step :: "vec \<Rightarrow> nat \<Rightarrow> nat \<times> nat \<times> nat \<Rightarrow> error + nat \<times> nat \<times> nat" where
  "rank_step vals i = (\<lambda>(index_low, index_high, index_next_high).
     and_then (read_at vals i) (\<lambda>v.
     and_then (read_at vals index_low) (\<lambda>v_low.
     let index_low' = (if v \<le> v_low then i else index_low) in
     and_then (read_at vals index_high) (\<lambda>v_high.
     if v > v_high then Inr (index_low', i, index_high)
     else
       and_then (read_at vals index_next_high) (\<lambda>v_next_high.
       if v > v_next_high \<and> i \<noteq> index_high then Inr (index_low', index_high, i)
       else Inr (index_low', index_high, index_next_high))))))"

definition ranking :: "vec \<Rightarrow> nat \<Rightarrow> error + nat \<times> nat \<times> nat" where
  "ranking vals np =
     and_then (read_at vals 0) (\<lambda>v0.
     and_then (read_at vals 1) (\<lambda>v1.
     for_loop np (rank_step vals) (0, if v0 > v1 then (0, 1) else (1, 0))))"

text \<open>Lines 90-93.\<close>

definition tolerance :: "config \<Rightarrow> vec \<Rightarrow> nat \<Rightarrow> nat \<Rightarrow> error + real" where
  "tolerance cfg vals index_low index_high =
     and_then (read_at vals index_high) (\<lambda>v_high.
     and_then (read_at vals index_low) (\<lambda>v_low.
     Inr (2 * \<bar>v_high - v_low\<bar> / (\<bar>v_high\<bar> + \<bar>v_low\<bar> + EPSILON cfg))))"

text \<open>Lines 97-102: the two swaps, \<open>func_min_\<close> and the returned vertex.\<close>

definition return_best :: "nelder_mead \<Rightarrow> nat \<Rightarrow> error + vec \<times> nelder_mead" where
  "return_best s index_low =
     and_then (read_at (func_vals s) 0) (\<lambda>v0.
     and_then (read_at (func_vals s) index_low) (\<lambda>v_low.
     and_then (write_at (func_vals s) 0 v_low) (\<lambda>vals1.
     and_then (write_at vals1 index_low v0) (\<lambda>vals2.
     and_then (read_at (simplex s) 0) (\<lambda>row0.
     and_then (read_at (simplex s) index_low) (\<lambda>row_low.
     and_then (write_at (simplex s) 0 row_low) (\<lambda>sx1.
     and_then (write_at sx1 index_low row0) (\<lambda>sx2.
     and_then (read_at sx2 0) (\<lambda>simplex_mins.
     and_then (read_at vals2 0) (\<lambda>fmin.
     Inr (simplex_mins, s\<lparr>simplex := sx2, func_vals := vals2, func_min := fmin\<rparr>)))))))))))"

text \<open>Lines 132-140: the body of the shrink loop for vertex \<open>i\<close>.\<close>

definition shrink_coordinate :: "nat \<Rightarrow> nat \<Rightarrow> nat \<Rightarrow> matrix \<times> vec \<Rightarrow> error + matrix \<times> vec" where
  "shrink_coordinate index_low i j = (\<lambda>(sx, dsums).
     and_then (read_at2 sx i j) (\<lambda>a.
     and_then (read_at2 sx index_low j) (\<lambda>b.
     and_then (write_at dsums j (0.5 * (a + b))) (\<lambda>dsums'.
     and_then (read_at dsums' j) (\<lambda>c.
     and_then (write_at2 sx i j c) (\<lambda>sx'.
     Inr (sx', dsums')))))))"

definition shrink_vertex ::
  "(vec \<Rightarrow> real) \<Rightarrow> nat \<Rightarrow> nat \<Rightarrow> nelder_mead \<Rightarrow> error + nelder_mead" where
  "shrink_vertex objective_function index_low i s =
     (if i \<noteq> index_low then
        and_then (for_loop (num_dimensions s) (shrink_coordinate index_low i)
                    (simplex s, simplex_sums s)) (\<lambda>(sx', dsums').
        and_then (write_at (func_vals s) i (objective_function dsums')) (\<lambda>vals'.
        Inr (s\<lparr>simplex := sx', func_vals := vals', simplex_sums := dsums'\<rparr>)))
      else Inr s)"

text \<open>Lines 132-142.\<close>

definition shrink :: "(vec \<Rightarrow> real) \<Rightarrow> nat \<Rightarrow> nelder_mead \<Rightarrow> error + nelder_mead" where
  "shrink objective_function index_low s =
     and_then (for_loop (num_points s) (shrink_vertex objective_function index_low) s) (\<lambda>s1.
     let s2 = s1\<lparr>num_evals := num_evals s1 + num_dimensions s1\<rparr> in
     and_then (dimension_sums (num_dimensions s2) (num_points s2) (simplex s2)) (\<lambda>dsums.
     Inr (s2\<lparr>simplex_sums := dsums\<rparr>)))"

text \<open>Lines 111-146: the geometric operator of one iteration.\<close>

definition geometric_operator ::
  "(vec \<Rightarrow> real) \<Rightarrow> nat \<Rightarrow> nat \<Rightarrow> nat \<Rightarrow> nelder_mead \<Rightarrow> error + nelder_mead" where
  "geometric_operator objective_function index_low index_high index_next_high s0 =
     (let s = s0\<lparr>num_evals := num_evals s0 + 2\<rparr> in
      and_then (reflect objective_function index_high (- 1) s) (\<lambda>(reflection, s1).
      and_then (read_at (func_vals s1) index_low) (\<lambda>v_low.
      if reflection \<le> v_low then
        and_then (reflect objective_function index_high 2 s1) (\<lambda>(reflection', s2). Inr s2)
      else
        and_then (read_at (func_vals s1) index_next_high) (\<lambda>func_next_high.
        if reflection \<ge> func_next_high then
          and_then (reflect objective_function index_high 0.5 s1) (\<lambda>(reflection', s2).
          if reflection' \<ge> func_next_high then shrink objective_function index_low s2
          else Inr s2)
        else Inr (s1\<lparr>num_evals := num_evals s1 - 1\<rparr>)))))"

text \<open>
  One pass through the body of \<open>while (true)\<close>: it returns from \<open>minimize\<close>, throws, or
  falls through to the next pass.
\<close>

datatype outcome = Returned vec nelder_mead | Continue nelder_mead

definition nm_step :: "config \<Rightarrow> (vec \<Rightarrow> real) \<Rightarrow> nelder_mead \<Rightarrow> error + outcome" where
  "nm_step cfg objective_function s =
     and_then (ranking (func_vals s) (num_points s)) (\<lambda>(index_low, index_high, index_next_high).
     and_then (tolerance cfg (func_vals s) index_low index_high) (\<lambda>tol.
     if tol < function_tol cfg then
       and_then (return_best s index_low) (\<lambda>(simplex_mins, s'). Inr (Returned simplex_mins s'))
     else if num_evals s \<ge> MAX_ITERS cfg then Inl MaxIterationsExceeded
     else
       and_then (geometric_operator objective_function index_low index_high index_next_high s)
         (\<lambda>s'. Inr (Continue s'))))"

subsection \<open>Facts needed to define the loop\<close>

lemma and_then_Inl [simp]: "and_then (Inl e) k = Inl e"
  by (simp add: and_then_def)

lemma and_then_Inr [simp]: "and_then (Inr x) k = k x"
  by (simp add: and_then_def)

lemma and_then_eq_Inr: "and_then m k = Inr y \<longleftrightarrow> (\<exists>x. m = Inr x \<and> k x = Inr y)"
  by (cases m) simp_all

lemma and_then_eq_Inl: "and_then m k = Inl e \<longleftrightarrow> m = Inl e \<or> (\<exists>x. m = Inr x \<and> k x = Inl e)"
  by (cases m) simp_all

lemma read_at_eq_Inr: "read_at xs i = Inr v \<longleftrightarrow> i < length xs \<and> v = xs ! i"
  by (auto simp: read_at_def)

lemma write_at_eq_Inr: "write_at xs i v = Inr ys \<longleftrightarrow> i < length xs \<and> ys = xs[i := v]"
  by (auto simp: write_at_def)

lemma read_at2_eq_Inr:
  "read_at2 m i j = Inr v \<longleftrightarrow> i < length m \<and> j < length (m ! i) \<and> v = m ! i ! j"
  by (auto simp: read_at2_def and_then_eq_Inr read_at_eq_Inr)

lemma write_at2_eq_Inr:
  "write_at2 m i j v = Inr m' \<longleftrightarrow>
     i < length m \<and> j < length (m ! i) \<and> m' = m[i := (m ! i)[j := v]]"
  by (auto simp: write_at2_def and_then_eq_Inr read_at_eq_Inr write_at_eq_Inr)

lemma iterate_append: "iterate (xs @ ys) body s = and_then (iterate xs body s) (iterate ys body)"
proof (induction xs arbitrary: s)
  case Nil
  show ?case by simp
next
  case (Cons x xs)
  show ?case
    by (cases "body x s") (simp_all add: Cons.IH)
qed

lemma for_loop_0 [simp]: "for_loop 0 body s = Inr s"
  by (simp add: for_loop_def)

lemma for_loop_Suc: "for_loop (Suc n) body s = and_then (for_loop n body s) (body n)"
proof -
  have "iterate [n] body = body n"
    by (rule ext) (simp add: and_then_def split: sum.splits)
  then show ?thesis
    by (simp add: for_loop_def iterate_append)
qed

text \<open>The invariant rule of the loop, for a run that completes.\<close>

lemma for_loop_invariant:
  assumes "for_loop n body s = Inr s'" and "I 0 s"
    and "\<And>i t t'. i < n \<Longrightarrow> I i t \<Longrightarrow> body i t = Inr t' \<Longrightarrow> I (Suc i) t'"
  shows "I n s'"
  using assms
proof (induction n arbitrary: s')
  case 0
  then show ?case by simp
next
  case (Suc n)
  from Suc.prems(1) obtain t where t: "for_loop n body s = Inr t" and b: "body n t = Inr s'"
    by (auto simp: for_loop_Suc and_then_eq_Inr)
  have "I n t"
    using t Suc.prems(2) Suc.prems(3) by (rule Suc.IH) simp_all
  then show ?case
    using b Suc.prems(3) by blast
qed

text \<open>The same rule, proving that the loop completes.\<close>

lemma for_loop_completes:
  assumes "I 0 s"
    and "\<And>i t. i < n \<Longrightarrow> I i t \<Longrightarrow> \<exists>t'. body i t = Inr t' \<and> I (Suc i) t'"
  shows "\<exists>s'. for_loop n body s = Inr s' \<and> I n s'"
  using assms
proof (induction n)
  case 0
  then show ?case by simp
next
  case (Suc n)
  have "\<exists>t. for_loop n body s = Inr t \<and> I n t"
    using Suc.prems(1) Suc.prems(2) by (intro Suc.IH) simp_all
  then obtain t where t: "for_loop n body s = Inr t" "I n t"
    by blast
  then show ?case
    using Suc.prems(2) [of n t] by (simp add: for_loop_Suc)
qed

text \<open>\<open>reflect\<close> touches neither the counter nor the two sizes.\<close>

lemma reflect_frame:
  assumes "reflect f w factor s = Inr (v, s')"
  shows "num_evals s' = num_evals s \<and> num_dimensions s' = num_dimensions s
    \<and> num_points s' = num_points s \<and> func_min s' = func_min s"
  using assms
  by (auto simp: reflect_def Let_def and_then_eq_Inr split: if_splits prod.splits)

lemma shrink_vertex_frame:
  assumes "shrink_vertex f low i s = Inr s'"
  shows "num_evals s' = num_evals s \<and> num_dimensions s' = num_dimensions s
    \<and> num_points s' = num_points s \<and> func_min s' = func_min s"
  using assms
  by (auto simp: shrink_vertex_def and_then_eq_Inr split: if_splits prod.splits)

lemma shrink_loop_frame:
  assumes "for_loop n (shrink_vertex f low) s = Inr s'"
  shows "num_evals s' = num_evals s \<and> num_dimensions s' = num_dimensions s
    \<and> num_points s' = num_points s \<and> func_min s' = func_min s"
  using assms
  by (rule for_loop_invariant [where I = "\<lambda>_ t. num_evals t = num_evals s
        \<and> num_dimensions t = num_dimensions s \<and> num_points t = num_points s
        \<and> func_min t = func_min s"])
     (simp_all add: shrink_vertex_frame)

lemma shrink_frame:
  assumes "shrink f low s = Inr s'"
  shows "num_evals s' = num_evals s + num_dimensions s \<and> num_dimensions s' = num_dimensions s
    \<and> num_points s' = num_points s \<and> func_min s' = func_min s"
  using assms
  by (auto simp: shrink_def Let_def and_then_eq_Inr dest: shrink_loop_frame)

text \<open>What one geometric step adds to the counter.\<close>

lemma geometric_operator_frame:
  assumes "geometric_operator f low high nh s = Inr s'"
  shows "num_evals s' \<in> {num_evals s + 1, num_evals s + 2, num_evals s + 2 + num_dimensions s}
    \<and> num_dimensions s' = num_dimensions s \<and> num_points s' = num_points s
    \<and> func_min s' = func_min s"
  using assms
  by (auto simp: geometric_operator_def Let_def and_then_eq_Inr
      split: if_splits prod.splits dest!: reflect_frame shrink_frame)

lemma nm_step_Continue_evals:
  assumes "nm_step cfg f s = Inr (Continue s')"
  shows "num_evals s < MAX_ITERS cfg \<and> num_evals s < num_evals s'"
  using assms
  by (auto simp: nm_step_def and_then_eq_Inr split: if_splits prod.splits
      dest!: geometric_operator_frame)

subsection \<open>minimize (lines 40-148)\<close>

text \<open>
  \<open>while (true)\<close>, lines 69-147. Every pass that falls through has raised the counter
  while it was below \<open>MAX_ITERS_\<close>, which bounds the number of passes.
\<close>

function nm_loop :: "config \<Rightarrow> (vec \<Rightarrow> real) \<Rightarrow> nelder_mead \<Rightarrow> error + vec \<times> nelder_mead" where
  "nm_loop cfg objective_function s =
     (case nm_step cfg objective_function s of
        Inl e \<Rightarrow> Inl e
      | Inr (Returned simplex_mins s') \<Rightarrow> Inr (simplex_mins, s')
      | Inr (Continue s') \<Rightarrow> nm_loop cfg objective_function s')"
  by pat_completeness auto

termination
  by (relation "measure (\<lambda>(cfg, f, s). MAX_ITERS cfg - num_evals s)")
     (auto dest!: nm_step_Continue_evals)

declare nm_loop.simps [simp del]

text \<open>Lines 56-62: the objective at every point of the simplex.\<close>

definition load_point :: "matrix \<Rightarrow> nat \<Rightarrow> nat \<Rightarrow> vec \<Rightarrow> error + vec" where
  "load_point sx i j evaluation_point =
     and_then (read_at2 sx i j) (\<lambda>x. write_at evaluation_point j x)"

definition evaluate_vertex ::
  "(vec \<Rightarrow> real) \<Rightarrow> nat \<Rightarrow> matrix \<Rightarrow> nat \<Rightarrow> vec \<times> vec \<Rightarrow> error + vec \<times> vec" where
  "evaluate_vertex objective_function nd sx i = (\<lambda>(evaluation_point, vals).
     and_then (for_loop nd (load_point sx i) evaluation_point) (\<lambda>evaluation_point'.
     and_then (write_at vals i (objective_function evaluation_point')) (\<lambda>vals'.
     Inr (evaluation_point', vals'))))"

text \<open>
  Lines 45-65: everything before the loop. \<open>func_vals_.resize\<close> keeps what an earlier run
  left in the vector and \<open>func_min_\<close> is not written before line 100; neither is read
  before it is written, and both start at zero here.
\<close>

definition initialise :: "(vec \<Rightarrow> real) \<Rightarrow> matrix \<Rightarrow> error + nelder_mead" where
  "initialise objective_function initial_simplex =
     (let nd = length initial_simplex in
      and_then (read_at initial_simplex 0) (\<lambda>row0.
      let np = length row0 in
      and_then (for_loop np (evaluate_vertex objective_function nd initial_simplex)
                  (replicate nd 0, replicate np 0)) (\<lambda>(evaluation_point, vals).
      and_then (dimension_sums nd np initial_simplex) (\<lambda>dsums.
      Inr \<lparr>num_dimensions = nd, num_points = np, num_evals = 0, simplex = initial_simplex,
           func_vals = vals, func_min = 0, simplex_sums = dsums\<rparr>))))"

text \<open>Lines 40-148: the overload that takes the simplex.\<close>

definition minimize :: "config \<Rightarrow> (vec \<Rightarrow> real) \<Rightarrow> matrix \<Rightarrow> error + vec \<times> nelder_mead" where
  "minimize cfg objective_function initial_simplex =
     and_then (initialise objective_function initial_simplex) (nm_loop cfg objective_function)"

text \<open>
  Lines 17-38: the overload that builds the simplex from a point and one step per
  dimension (\<open>initial_point(j)\<close> read as the element \<open>j\<close>), and lines 6-15, the overload
  with one step for all dimensions.
\<close>

definition copy_coordinate :: "vec \<Rightarrow> nat \<Rightarrow> nat \<Rightarrow> matrix \<Rightarrow> error + matrix" where
  "copy_coordinate initial_point i j sx =
     and_then (read_at initial_point j) (\<lambda>x. write_at2 sx i j x)"

definition build_row :: "vec \<Rightarrow> vec \<Rightarrow> nat \<Rightarrow> nat \<Rightarrow> matrix \<Rightarrow> error + matrix" where
  "build_row initial_point deltas nd i sx =
     and_then (for_loop nd (copy_coordinate initial_point i) sx) (\<lambda>sx1.
     if i \<noteq> 0 then
       and_then (read_at2 sx1 i (i - 1)) (\<lambda>x.
       and_then (read_at deltas (i - 1)) (\<lambda>d.
       write_at2 sx1 i (i - 1) (x + d)))
     else Inr sx1)"

definition build_simplex :: "vec \<Rightarrow> vec \<Rightarrow> error + matrix" where
  "build_simplex initial_point deltas =
     (let nd = length initial_point in
      for_loop (nd + 1) (build_row initial_point deltas nd) (replicate (nd + 1) (replicate nd 0)))"

definition minimize_deltas ::
  "config \<Rightarrow> (vec \<Rightarrow> real) \<Rightarrow> vec \<Rightarrow> vec \<Rightarrow> error + vec \<times> nelder_mead" where
  "minimize_deltas cfg objective_function initial_point deltas =
     and_then (build_simplex initial_point deltas) (minimize cfg objective_function)"

definition minimize_delta ::
  "config \<Rightarrow> (vec \<Rightarrow> real) \<Rightarrow> vec \<Rightarrow> real \<Rightarrow> error + vec \<times> nelder_mead" where
  "minimize_delta cfg objective_function initial_point delta =
     minimize_deltas cfg objective_function initial_point (replicate (length initial_point) delta)"

subsection \<open>Facts about loops that fail\<close>

lemma for_loop_error:
  assumes "for_loop n body s = Inl e"
    and "\<And>i t. i < n \<Longrightarrow> body i t = Inl e \<Longrightarrow> P"
  shows P
  using assms
proof (induction n)
  case 0
  then show ?case by simp
next
  case (Suc n)
  from Suc.prems(1) consider "for_loop n body s = Inl e"
    | t where "for_loop n body s = Inr t" "body n t = Inl e"
    by (auto simp: for_loop_Suc and_then_eq_Inl)
  then show ?case
  proof cases
    case 1
    then show ?thesis using Suc.IH Suc.prems(2) by (meson less_Suc_eq)
  next
    case 2
    then show ?thesis using Suc.prems(2) by blast
  qed
qed

lemma for_loop_first:
  assumes "0 < n" and "body 0 s = Inl e"
  shows "for_loop n body s = Inl e"
proof -
  have "[0..<n] = 0 # [Suc 0..<n]"
    using assms(1) by (rule upt_conv_Cons)
  then show ?thesis
    using assms(2) by (simp add: for_loop_def)
qed

lemma load_point_error: "load_point sx i j ep = Inl e \<Longrightarrow> e = OutOfRange"
  by (auto simp: load_point_def read_at2_def read_at_def write_at_def and_then_eq_Inl
      split: if_splits)

text \<open>Copying \<open>nd\<close> coordinates out of a row that has fewer of them fails.\<close>

lemma load_row_short:
  assumes "i < length sx" and "length (sx ! i) < nd"
  shows "for_loop nd (load_point sx i) ep = Inl OutOfRange"
proof -
  obtain k where k: "nd = Suc k" and len: "length (sx ! i) \<le> k"
    using assms(2) by (cases nd) auto
  have last: "load_point sx i k t = Inl OutOfRange" for t
    using assms(1) len by (simp add: load_point_def read_at2_def read_at_def)
  show ?thesis
  proof (cases "for_loop k (load_point sx i) ep")
    case (Inl e)
    then have "e = OutOfRange"
      by (rule for_loop_error) (rule load_point_error)
    with Inl show ?thesis by (simp add: k for_loop_Suc)
  next
    case (Inr t)
    then show ?thesis by (simp add: k for_loop_Suc last)
  qed
qed

section \<open>Facts about the model\<close>

subsection \<open>The ranking pass\<close>

text \<open>
  What the scan has established after \<open>k\<close> passes: for \<open>low\<close> over the indices below \<open>k\<close>,
  for \<open>high\<close> and \<open>next_high\<close> over the indices below \<open>max 2 k\<close>, since line 72 has
  looked at the first two values before the scan starts.
\<close>

definition low_inv :: "vec \<Rightarrow> nat \<Rightarrow> nat \<Rightarrow> bool" where
  "low_inv vals k low \<longleftrightarrow>
     low < max 1 k \<and> (\<forall>i<k. vals ! low \<le> vals ! i) \<and> (\<forall>i<k. vals ! i = vals ! low \<longrightarrow> i \<le> low)"

definition high_inv :: "vec \<Rightarrow> nat \<Rightarrow> nat \<Rightarrow> nat \<Rightarrow> bool" where
  "high_inv vals k high nh \<longleftrightarrow>
     high < max 2 k \<and> nh < max 2 k \<and> nh \<noteq> high
     \<and> (\<forall>i<max 2 k. vals ! i \<le> vals ! high)
     \<and> (\<forall>i<max 2 k. i \<noteq> high \<longrightarrow> vals ! i \<le> vals ! nh)
     \<and> (\<forall>i<high. vals ! i < vals ! high \<or> (i = 0 \<and> high = 1))"

text \<open>The three indices after the pass for index \<open>k\<close>, lines 76-86.\<close>

definition next_low :: "vec \<Rightarrow> nat \<Rightarrow> nat \<Rightarrow> nat" where
  "next_low vals k low = (if vals ! k \<le> vals ! low then k else low)"

definition next_high :: "vec \<Rightarrow> nat \<Rightarrow> nat \<Rightarrow> nat \<Rightarrow> nat \<times> nat" where
  "next_high vals k high nh =
     (if vals ! high < vals ! k then (k, high)
      else if vals ! nh < vals ! k \<and> k \<noteq> high then (high, k) else (high, nh))"

lemma rank_step_eq:
  assumes "k < length vals" "low < length vals" "high < length vals" "nh < length vals"
  shows "rank_step vals k (low, high, nh) =
    Inr (next_low vals k low, fst (next_high vals k high nh), snd (next_high vals k high nh))"
  using assms by (simp add: rank_step_def read_at_def Let_def next_low_def next_high_def)

lemma low_inv_step:
  assumes "low_inv vals k low"
  shows "low_inv vals (Suc k) (next_low vals k low)"
proof (cases "vals ! k \<le> vals ! low")
  case True
  then have "\<forall>i<k. vals ! k \<le> vals ! i"
    using assms by (auto simp: low_inv_def intro: order_trans)
  then show ?thesis
    using True by (simp add: low_inv_def next_low_def less_Suc_eq)
next
  case False
  then show ?thesis
    using assms by (cases k) (auto simp: low_inv_def next_low_def less_Suc_eq)
qed

lemma high_inv_small:
  assumes "high_inv vals k high nh" and "k < 2"
  shows "next_high vals k high nh = (high, nh)" and "high_inv vals (Suc k) high nh"
proof -
  have k: "vals ! k \<le> vals ! high" "k \<noteq> high \<Longrightarrow> vals ! k \<le> vals ! nh"
    using assms by (simp_all add: high_inv_def)
  then show "next_high vals k high nh = (high, nh)"
    by (auto simp: next_high_def)
  have "max 2 (Suc k) = 2" "max 2 k = 2"
    using assms(2) by simp_all
  then show "high_inv vals (Suc k) high nh"
    using assms(1) by (simp add: high_inv_def)
qed

lemma high_inv_big:
  assumes "high_inv vals k high nh" and "2 \<le> k"
  shows "high_inv vals (Suc k) (fst (next_high vals k high nh)) (snd (next_high vals k high nh))"
proof -
  have m: "max 2 (Suc k) = Suc k" "max 2 k = k"
    using assms(2) by simp_all
  have inv: "high < k" "nh < k" "nh \<noteq> high" "\<forall>i<k. vals ! i \<le> vals ! high"
    "\<forall>i<k. i \<noteq> high \<longrightarrow> vals ! i \<le> vals ! nh"
    "\<forall>i<high. vals ! i < vals ! high \<or> (i = 0 \<and> high = 1)"
    using assms(1) by (simp_all add: high_inv_def m)
  consider (a) "vals ! high < vals ! k"
    | (b) "\<not> vals ! high < vals ! k" "vals ! nh < vals ! k"
    | (c) "\<not> vals ! high < vals ! k" "\<not> vals ! nh < vals ! k"
    by blast
  then show ?thesis
  proof cases
    case a
    have "\<forall>i<k. vals ! i < vals ! k"
      using a inv(4) by (auto intro: le_less_trans)
    then show ?thesis
      using a inv by (simp add: high_inv_def m next_high_def less_Suc_eq) (metis less_eq_real_def)
  next
    case b
    have "\<forall>i<k. i \<noteq> high \<longrightarrow> vals ! i \<le> vals ! k"
      using b inv(5) by (auto intro: order_trans less_imp_le)
    then show ?thesis
      using b inv by (auto simp: high_inv_def m next_high_def less_Suc_eq)
  next
    case c
    then show ?thesis
      using inv by (auto simp: high_inv_def m next_high_def less_Suc_eq)
  qed
qed

definition rank_inv :: "vec \<Rightarrow> nat \<Rightarrow> nat \<times> nat \<times> nat \<Rightarrow> bool" where
  "rank_inv vals k = (\<lambda>(low, high, nh). low_inv vals k low \<and> high_inv vals k high nh)"

lemma rank_inv_init:
  "rank_inv vals 0 (0, if vals ! 0 > vals ! 1 then (0, 1) else (1, 0))"
  by (auto simp: rank_inv_def low_inv_def high_inv_def less_Suc_eq numeral_2_eq_2)

lemma rank_inv_step:
  assumes "rank_inv vals k t" and "k < np" and "2 \<le> np" and "np \<le> length vals"
  shows "\<exists>t'. rank_step vals k t = Inr t' \<and> rank_inv vals (Suc k) t'"
proof -
  obtain low high nh where t: "t = (low, high, nh)"
    by (cases t) auto
  have inv: "low_inv vals k low" "high_inv vals k high nh"
    using assms(1) by (simp_all add: rank_inv_def t)
  have "low < max 1 k" "high < max 2 k" "nh < max 2 k"
    using inv by (simp_all add: low_inv_def high_inv_def)
  then have "k < length vals" "low < length vals" "high < length vals" "nh < length vals"
    using assms(2,3,4) by auto
  then have step: "rank_step vals k t = Inr (next_low vals k low,
      fst (next_high vals k high nh), snd (next_high vals k high nh))"
    unfolding t by (rule rank_step_eq)
  have "high_inv vals (Suc k) (fst (next_high vals k high nh)) (snd (next_high vals k high nh))"
  proof (cases "k < 2")
    case True
    then show ?thesis
      using high_inv_small [OF inv(2)] by simp
  next
    case False
    then show ?thesis
      using high_inv_big [OF inv(2)] by simp
  qed
  then show ?thesis
    using low_inv_step [OF inv(1)] by (simp add: step rank_inv_def case_prod_beta)
qed

text \<open>The result of the ranking pass on at least two values.\<close>

lemma ranking_total:
  assumes "2 \<le> np" and "np \<le> length vals"
  shows "\<exists>low high nh. ranking vals np = Inr (low, high, nh)
    \<and> low < np \<and> high < np \<and> nh < np \<and> nh \<noteq> high
    \<and> (\<forall>i<np. vals ! low \<le> vals ! i)
    \<and> (\<forall>i<np. vals ! i = vals ! low \<longrightarrow> i \<le> low)
    \<and> (\<forall>i<np. vals ! i \<le> vals ! high)
    \<and> (\<forall>i<np. i \<noteq> high \<longrightarrow> vals ! i \<le> vals ! nh)
    \<and> (\<forall>i<high. vals ! i < vals ! high \<or> (i = 0 \<and> high = 1))"
proof -
  let ?init = "(0 :: nat, if vals ! 0 > vals ! 1 then (0 :: nat, 1 :: nat) else (1, 0))"
  have "\<exists>t. for_loop np (rank_step vals) ?init = Inr t \<and> rank_inv vals np t"
    using rank_inv_init [of vals]
  proof (rule for_loop_completes)
    fix i t
    assume "i < np" and "rank_inv vals i t"
    then show "\<exists>t'. rank_step vals i t = Inr t' \<and> rank_inv vals (Suc i) t'"
      using assms by (intro rank_inv_step)
  qed
  then obtain t where t: "for_loop np (rank_step vals) ?init = Inr t" "rank_inv vals np t"
    by blast
  obtain low high nh where lhn: "t = (low, high, nh)"
    by (cases t) auto
  have "2 \<le> length vals"
    using assms by simp
  then have "read_at vals 0 = Inr (vals ! 0)" and "read_at vals 1 = Inr (vals ! 1)"
    by (auto simp: read_at_def)
  then have "ranking vals np = Inr (low, high, nh)"
    using t(1) by (simp add: ranking_def lhn)
  moreover have "max 2 np = np" "max 1 np = np"
    using assms(1) by simp_all
  ultimately show ?thesis
    using t(2) by (simp add: rank_inv_def low_inv_def high_inv_def lhn)
qed

text \<open>
  How the scan breaks ties for \<open>high\<close> and \<open>next_high\<close>: an index replaces them only
  with a strictly greater value (lines 80 and 84), so the earlier index keeps its place,
  except that line 72 gives index 1 the place before index 0 when their values are equal.
\<close>

definition tie_inv :: "vec \<Rightarrow> nat \<Rightarrow> nat \<Rightarrow> bool" where
  "tie_inv vals high nh \<longleftrightarrow>
     (high = 0 \<longrightarrow> vals ! 1 < vals ! 0)
     \<and> (\<forall>i<nh. i \<noteq> high \<longrightarrow> vals ! i < vals ! nh \<or> (i = 0 \<and> nh = 1))
     \<and> (nh = 0 \<longrightarrow> high = 1 \<or> vals ! 1 < vals ! 0)"

lemma tie_inv_init:
  "tie_inv vals (if vals ! 0 > vals ! 1 then 0 else 1) (if vals ! 0 > vals ! 1 then 1 else 0)"
  by (simp add: tie_inv_def)

lemma tie_inv_big:
  assumes "high_inv vals k high nh" and "tie_inv vals high nh" and "2 \<le> k"
  shows "tie_inv vals (fst (next_high vals k high nh)) (snd (next_high vals k high nh))"
proof -
  have m: "max 2 k = k"
    using assms(3) by simp
  have inv: "high < k" "nh < k" "\<forall>i<k. i \<noteq> high \<longrightarrow> vals ! i \<le> vals ! nh"
    "\<forall>i<high. vals ! i < vals ! high \<or> (i = 0 \<and> high = 1)"
    using assms(1) by (simp_all add: high_inv_def m)
  have k0: "k \<noteq> 0"
    using assms(3) by simp
  consider (a) "vals ! high < vals ! k"
    | (b) "\<not> vals ! high < vals ! k" "vals ! nh < vals ! k"
    | (c) "\<not> vals ! high < vals ! k" "\<not> vals ! nh < vals ! k"
    by blast
  then show ?thesis
  proof cases
    case a
    then have "next_high vals k high nh = (k, high)"
      by (simp add: next_high_def)
    then show ?thesis
      using inv(4) assms(2) k0 by (simp add: tie_inv_def)
  next
    case b
    have "\<forall>i<k. i \<noteq> high \<longrightarrow> vals ! i < vals ! k"
      using b(2) inv(3) by (auto intro: le_less_trans)
    moreover have "next_high vals k high nh = (high, k)"
      using b inv(1) by (auto simp: next_high_def)
    ultimately show ?thesis
      using assms(2) k0 by (simp add: tie_inv_def)
  next
    case c
    then have "next_high vals k high nh = (high, nh)"
      by (simp add: next_high_def)
    then show ?thesis
      using assms(2) by simp
  qed
qed

definition rank_tie_inv :: "vec \<Rightarrow> nat \<Rightarrow> nat \<times> nat \<times> nat \<Rightarrow> bool" where
  "rank_tie_inv vals k = (\<lambda>(low, high, nh). rank_inv vals k (low, high, nh) \<and> tie_inv vals high nh)"

lemma rank_tie_inv_step:
  assumes "rank_tie_inv vals k t" and "k < np" and "2 \<le> np" and "np \<le> length vals"
    and "rank_step vals k t = Inr t'"
  shows "rank_tie_inv vals (Suc k) t'"
proof -
  obtain low high nh where t: "t = (low, high, nh)"
    by (cases t) auto
  have inv: "rank_inv vals k t" "high_inv vals k high nh" "tie_inv vals high nh"
    using assms(1) by (simp_all add: rank_tie_inv_def rank_inv_def t)
  have r: "rank_inv vals (Suc k) t'"
    using rank_inv_step [OF inv(1) assms(2,3,4)] assms(5) by simp
  have "high < max 2 k" "nh < max 2 k" "low < max 1 k"
    using inv(1,2) by (simp_all add: high_inv_def rank_inv_def low_inv_def t)
  then have "k < length vals" "low < length vals" "high < length vals" "nh < length vals"
    using assms(2,3,4) by auto
  then have "rank_step vals k t = Inr (next_low vals k low,
      fst (next_high vals k high nh), snd (next_high vals k high nh))"
    unfolding t by (rule rank_step_eq)
  then have t': "t' = (next_low vals k low,
      fst (next_high vals k high nh), snd (next_high vals k high nh))"
    using assms(5) by simp
  have "tie_inv vals (fst (next_high vals k high nh)) (snd (next_high vals k high nh))"
  proof (cases "k < 2")
    case True
    then show ?thesis
      using high_inv_small(1) [OF inv(2)] inv(3) by simp
  next
    case False
    then show ?thesis
      using tie_inv_big [OF inv(2,3)] by simp
  qed
  then show ?thesis
    using r by (simp add: rank_tie_inv_def t' case_prod_beta)
qed

lemma ranking_tie_rules:
  assumes "2 \<le> np" and "np \<le> length vals" and "ranking vals np = Inr (low, high, nh)"
  shows "high = 0 \<longrightarrow> vals ! 1 < vals ! 0"
    and "\<forall>i<nh. i \<noteq> high \<longrightarrow> vals ! i < vals ! nh \<or> (i = 0 \<and> nh = 1)"
    and "nh = 0 \<longrightarrow> high = 1 \<or> vals ! 1 < vals ! 0"
proof -
  let ?init = "(0 :: nat, if vals ! 0 > vals ! 1 then (0 :: nat, 1 :: nat) else (1, 0))"
  have "2 \<le> length vals"
    using assms by simp
  then have "read_at vals 0 = Inr (vals ! 0)" and "read_at vals 1 = Inr (vals ! 1)"
    by (auto simp: read_at_def)
  then have loop: "for_loop np (rank_step vals) ?init = Inr (low, high, nh)"
    using assms(3) by (simp add: ranking_def)
  have "rank_tie_inv vals np (low, high, nh)"
    using loop
  proof (rule for_loop_invariant [where I = "rank_tie_inv vals"])
    show "rank_tie_inv vals 0 ?init"
      using rank_inv_init [of vals] tie_inv_init [of vals]
      by (cases "vals ! 0 > vals ! 1") (simp_all add: rank_tie_inv_def)
  next
    fix i t t'
    assume "i < np" and "rank_tie_inv vals i t" and "rank_step vals i t = Inr t'"
    then show "rank_tie_inv vals (Suc i) t'"
      using assms(1,2) by (intro rank_tie_inv_step [where t = t and np = np])
  qed
  then have "tie_inv vals high nh"
    by (simp add: rank_tie_inv_def)
  then show "high = 0 \<longrightarrow> vals ! 1 < vals ! 0"
    and "\<forall>i<nh. i \<noteq> high \<longrightarrow> vals ! i < vals ! nh \<or> (i = 0 \<and> nh = 1)"
    and "nh = 0 \<longrightarrow> high = 1 \<or> vals ! 1 < vals ! 0"
    by (simp_all add: tie_inv_def)
qed

text \<open>These properties determine the three indices.\<close>

lemma low_unique:
  fixes vals :: vec
  assumes "low < np" "\<forall>i<np. vals ! low \<le> vals ! i" "\<forall>i<np. vals ! i = vals ! low \<longrightarrow> i \<le> low"
    and "low' < np" "\<forall>i<np. vals ! low' \<le> vals ! i" "\<forall>i<np. vals ! i = vals ! low' \<longrightarrow> i \<le> low'"
  shows "low' = low"
proof -
  have "vals ! low \<le> vals ! low'" and "vals ! low' \<le> vals ! low"
    using assms(1,2,4,5) by simp_all
  then have eq: "vals ! low = vals ! low'"
    by simp
  have "low' \<le> low"
    using assms(3,4) eq by simp
  moreover have "low \<le> low'"
    using assms(1,6) eq by simp
  ultimately show ?thesis
    by simp
qed

lemma high_unique:
  fixes vals :: vec
  assumes "high < np" "\<forall>i<np. vals ! i \<le> vals ! high"
    "\<forall>i<high. vals ! i < vals ! high \<or> (i = 0 \<and> high = 1)" "high = 0 \<longrightarrow> vals ! 1 < vals ! 0"
    and "high' < np" "\<forall>i<np. vals ! i \<le> vals ! high'"
    "\<forall>i<high'. vals ! i < vals ! high' \<or> (i = 0 \<and> high' = 1)" "high' = 0 \<longrightarrow> vals ! 1 < vals ! 0"
  shows "high' = high"
proof -
  have "vals ! high \<le> vals ! high'" and "vals ! high' \<le> vals ! high"
    using assms(1,2,5,6) by simp_all
  then have eq: "vals ! high = vals ! high'"
    by simp
  have "\<not> high < high'"
  proof
    assume "high < high'"
    then have "vals ! high < vals ! high' \<or> (high = 0 \<and> high' = 1)"
      using assms(7) by simp
    then have "high = 0 \<and> high' = 1"
      using eq by simp
    then show False
      using assms(4) eq by simp
  qed
  moreover have "\<not> high' < high"
  proof
    assume "high' < high"
    then have "vals ! high' < vals ! high \<or> (high' = 0 \<and> high = 1)"
      using assms(3) by simp
    then have "high' = 0 \<and> high = 1"
      using eq by simp
    then show False
      using assms(8) eq by simp
  qed
  ultimately show ?thesis
    by simp
qed

lemma next_high_unique:
  fixes vals :: vec
  assumes "nh < np" "nh \<noteq> high" "\<forall>i<np. i \<noteq> high \<longrightarrow> vals ! i \<le> vals ! nh"
    "\<forall>i<nh. i \<noteq> high \<longrightarrow> vals ! i < vals ! nh \<or> (i = 0 \<and> nh = 1)"
    "nh = 0 \<longrightarrow> high = 1 \<or> vals ! 1 < vals ! 0"
    and "nh' < np" "nh' \<noteq> high" "\<forall>i<np. i \<noteq> high \<longrightarrow> vals ! i \<le> vals ! nh'"
    "\<forall>i<nh'. i \<noteq> high \<longrightarrow> vals ! i < vals ! nh' \<or> (i = 0 \<and> nh' = 1)"
    "nh' = 0 \<longrightarrow> high = 1 \<or> vals ! 1 < vals ! 0"
  shows "nh' = nh"
proof -
  have "vals ! nh \<le> vals ! nh'" and "vals ! nh' \<le> vals ! nh"
    using assms(1,2,3,6,7,8) by simp_all
  then have eq: "vals ! nh = vals ! nh'"
    by simp
  have "\<not> nh < nh'"
  proof
    assume "nh < nh'"
    then have "vals ! nh < vals ! nh' \<or> (nh = 0 \<and> nh' = 1)"
      using assms(2,9) by simp
    then have "nh = 0 \<and> nh' = 1"
      using eq by simp
    then show False
      using assms(5,7) eq by simp
  qed
  moreover have "\<not> nh' < nh"
  proof
    assume "nh' < nh"
    then have "vals ! nh' < vals ! nh \<or> (nh' = 0 \<and> nh = 1)"
      using assms(4,7) by simp
    then have "nh' = 0 \<and> nh = 1"
      using eq by simp
    then show False
      using assms(2,10) eq by simp
  qed
  ultimately show ?thesis
    by simp
qed

subsection \<open>Facts about reflect\<close>

text \<open>The coordinate that line 163 computes.\<close>

definition trial_value :: "nelder_mead \<Rightarrow> nat \<Rightarrow> real \<Rightarrow> nat \<Rightarrow> real" where
  "trial_value s w factor j =
     simplex_sums s ! j * ((1 - factor) / real (num_dimensions s))
     - simplex s ! w ! j * ((1 - factor) / real (num_dimensions s) - factor)"

lemma trial_point_Inr:
  assumes "trial_point s w factor = Inr ev"
  shows "length ev = num_dimensions s"
    and "\<forall>j<num_dimensions s. j < length (simplex_sums s) \<and> w < length (simplex s)
          \<and> j < length (simplex s ! w) \<and> ev ! j = trial_value s w factor j"
proof -
  let ?I = "\<lambda>k t. length t = num_dimensions s
      \<and> (\<forall>j<k. j < length (simplex_sums s) \<and> w < length (simplex s)
          \<and> j < length (simplex s ! w) \<and> t ! j = trial_value s w factor j)"
  have "?I (num_dimensions s) ev"
    using assms unfolding trial_point_def Let_def
    by (rule for_loop_invariant [where I = ?I])
       (auto simp: trial_coordinate_def and_then_eq_Inr read_at_eq_Inr read_at2_eq_Inr
         write_at_eq_Inr less_Suc_eq trial_value_def)
  then show "length ev = num_dimensions s"
    and "\<forall>j<num_dimensions s. j < length (simplex_sums s) \<and> w < length (simplex s)
          \<and> j < length (simplex s ! w) \<and> ev ! j = trial_value s w factor j"
    by simp_all
qed

lemma trial_point_completes:
  assumes "w < length (simplex s)" and "num_dimensions s \<le> length (simplex s ! w)"
    and "num_dimensions s \<le> length (simplex_sums s)"
  shows "\<exists>ev. trial_point s w factor = Inr ev"
proof -
  have "\<exists>ev. for_loop (num_dimensions s) (trial_coordinate s w
           ((1 - factor) / real (num_dimensions s))
           ((1 - factor) / real (num_dimensions s) - factor))
           (replicate (num_dimensions s) 0) = Inr ev \<and> length ev = num_dimensions s"
    using assms
    by (intro for_loop_completes [where I = "\<lambda>_ t. length t = num_dimensions s"])
       (auto simp: trial_coordinate_def read_at_def read_at2_def write_at_def)
  then show ?thesis
    by (auto simp: trial_point_def Let_def)
qed

text \<open>
  The commit loop of lines 171-174 after \<open>k\<close> passes: the first \<open>k\<close> coordinates of the
  worst row are the trial ones, the first \<open>k\<close> sums have moved by the difference, and
  nothing else has changed.
\<close>

definition commit_inv :: "nat \<Rightarrow> vec \<Rightarrow> matrix \<Rightarrow> vec \<Rightarrow> nat \<Rightarrow> matrix \<times> vec \<Rightarrow> bool" where
  "commit_inv w ev sx ds k = (\<lambda>(sx', ds').
     length sx' = length sx \<and> length ds' = length ds
     \<and> (\<forall>i. i \<noteq> w \<longrightarrow> sx' ! i = sx ! i)
     \<and> length (sx' ! w) = length (sx ! w)
     \<and> (\<forall>j. sx' ! w ! j = (if j < k then ev ! j else sx ! w ! j))
     \<and> (\<forall>j. ds' ! j = (if j < k then ds ! j + (ev ! j - sx ! w ! j) else ds ! j))
     \<and> (0 < k \<longrightarrow> w < length sx \<and> k \<le> length (sx ! w) \<and> k \<le> length ds \<and> k \<le> length ev))"

lemma commit_inv_step:
  assumes "commit_inv w ev sx ds k t" and "commit_point w ev k t = Inr t'"
  shows "commit_inv w ev sx ds (Suc k) t'"
proof -
  obtain sx1 ds1 where t: "t = (sx1, ds1)"
    by (cases t) auto
  have inv: "length sx1 = length sx" "length ds1 = length ds"
    "\<forall>i. i \<noteq> w \<longrightarrow> sx1 ! i = sx ! i" "length (sx1 ! w) = length (sx ! w)"
    "\<forall>j. sx1 ! w ! j = (if j < k then ev ! j else sx ! w ! j)"
    "\<forall>j. ds1 ! j = (if j < k then ds ! j + (ev ! j - sx ! w ! j) else ds ! j)"
    using assms(1) by (simp_all add: commit_inv_def t)
  have rd: "k < length ds1" "k < length ev" "w < length sx1" "k < length (sx1 ! w)"
    and t': "t' = (sx1[w := (sx1 ! w)[k := ev ! k]], ds1[k := ds1 ! k + (ev ! k - sx1 ! w ! k)])"
    using assms(2)
    by (auto simp: commit_point_def t and_then_eq_Inr read_at_eq_Inr read_at2_eq_Inr
        write_at_eq_Inr write_at2_eq_Inr)
  have a: "\<forall>j. (sx1 ! w)[k := ev ! k] ! j = (if j < Suc k then ev ! j else sx ! w ! j)"
    using inv(5) rd(4) by (auto simp: nth_list_update less_Suc_eq)
  have b: "\<forall>j. ds1[k := ds1 ! k + (ev ! k - sx1 ! w ! k)] ! j
      = (if j < Suc k then ds ! j + (ev ! j - sx ! w ! j) else ds ! j)"
    using inv(5,6) rd(1) by (auto simp: nth_list_update less_Suc_eq)
  show ?thesis
    using inv(1-4) rd a b by (simp add: commit_inv_def t')
qed

lemma overwrite_prefix:
  assumes "length r' = length r" and "n \<le> length r"
    and "\<forall>j. r' ! j = (if j < n then g j else r ! j)"
  shows "r' = map g [0..<n] @ drop n r"
proof (rule nth_equalityI)
  show "length r' = length (map g [0..<n] @ drop n r)"
    using assms(1,2) by simp
next
  fix j
  assume "j < length r'"
  then show "r' ! j = (map g [0..<n] @ drop n r) ! j"
    using assms by (simp add: nth_append)
qed

text \<open>
  The state after lines 169-174: the trial vertex stands in the worst row, its value in
  the paired position, and each sum has grown by new minus old.
\<close>

definition replace_worst :: "nelder_mead \<Rightarrow> nat \<Rightarrow> vec \<Rightarrow> real \<Rightarrow> nelder_mead" where
  "replace_worst s w ev v =
     s\<lparr>simplex := (simplex s)[w := ev @ drop (length ev) (simplex s ! w)],
       func_vals := (func_vals s)[w := v],
       simplex_sums := map (\<lambda>j. simplex_sums s ! j + (ev ! j - simplex s ! w ! j)) [0..<length ev]
                        @ drop (length ev) (simplex_sums s)\<rparr>"

lemma commit_loop_result:
  assumes "for_loop (length ev) (commit_point w ev) (sx, ds) = Inr (sx', ds')"
  shows "sx' = sx[w := ev @ drop (length ev) (sx ! w)]"
    and "ds' = map (\<lambda>j. ds ! j + (ev ! j - sx ! w ! j)) [0..<length ev] @ drop (length ev) ds"
proof -
  let ?n = "length ev"
  have "commit_inv w ev sx ds ?n (sx', ds')"
    using assms
  proof (rule for_loop_invariant [where I = "commit_inv w ev sx ds"])
    show "commit_inv w ev sx ds 0 (sx, ds)"
      by (simp add: commit_inv_def)
  next
    fix i t t'
    assume "commit_inv w ev sx ds i t" and "commit_point w ev i t = Inr t'"
    then show "commit_inv w ev sx ds (Suc i) t'"
      by (rule commit_inv_step)
  qed
  then have inv: "length sx' = length sx" "length ds' = length ds"
    "\<forall>i. i \<noteq> w \<longrightarrow> sx' ! i = sx ! i" "length (sx' ! w) = length (sx ! w)"
    "\<forall>j. sx' ! w ! j = (if j < ?n then ev ! j else sx ! w ! j)"
    "\<forall>j. ds' ! j = (if j < ?n then ds ! j + (ev ! j - sx ! w ! j) else ds ! j)"
    "?n \<le> length (sx ! w)" "?n \<le> length ds"
    by (auto simp: commit_inv_def)
  have "sx' ! w = map (\<lambda>j. ev ! j) [0..<?n] @ drop ?n (sx ! w)"
    using inv(4,7,5) by (rule overwrite_prefix)
  then have row: "sx' ! w = ev @ drop ?n (sx ! w)"
    by (simp add: map_nth)
  show "sx' = sx[w := ev @ drop ?n (sx ! w)]"
  proof (rule nth_equalityI)
    show "length sx' = length (sx[w := ev @ drop ?n (sx ! w)])"
      using inv(1) by simp
  next
    fix i
    assume "i < length sx'"
    then show "sx' ! i = sx[w := ev @ drop ?n (sx ! w)] ! i"
      using inv(1,3) row by (cases "i = w") simp_all
  qed
  show "ds' = map (\<lambda>j. ds ! j + (ev ! j - sx ! w ! j)) [0..<?n] @ drop ?n ds"
    using inv(2,8,6) by (rule overwrite_prefix)
qed

lemma reflect_Inr:
  assumes "reflect f w factor s = Inr (v, s')"
  shows "\<exists>ev. trial_point s w factor = Inr ev \<and> v = f ev \<and> w < length (func_vals s)
     \<and> (v < func_vals s ! w \<longrightarrow> s' = replace_worst s w ev v)
     \<and> (\<not> v < func_vals s ! w \<longrightarrow> s' = s)"
proof -
  from assms obtain ev where ev: "trial_point s w factor = Inr ev" and v: "v = f ev"
    and w: "w < length (func_vals s)"
    by (auto simp: reflect_def Let_def and_then_eq_Inr read_at_eq_Inr split: if_splits)
  have n: "length ev = num_dimensions s"
    using ev by (rule trial_point_Inr)
  have keep: "s' = s" if "\<not> v < func_vals s ! w"
    using assms that ev w by (simp add: reflect_def Let_def read_at_def v)
  have change: "s' = replace_worst s w ev v" if "v < func_vals s ! w"
  proof -
    from assms that ev w obtain sx' ds'
      where loop: "for_loop (length ev) (commit_point w ev) (simplex s, simplex_sums s)
          = Inr (sx', ds')"
        and s': "s' = s\<lparr>simplex := sx', func_vals := (func_vals s)[w := v], simplex_sums := ds'\<rparr>"
      by (auto simp: reflect_def Let_def read_at_def write_at_def v n and_then_eq_Inr
          split: prod.splits)
    show ?thesis
      unfolding s' replace_worst_def
      using commit_loop_result [OF loop] by simp
  qed
  show ?thesis
    using ev v w keep change by blast
qed

text \<open>With the accesses in range, the commit loop and the whole call complete.\<close>

lemma commit_loop_completes:
  assumes "w < length sx" and "n \<le> length (sx ! w)" and "n \<le> length ds" and "n \<le> length ev"
  shows "\<exists>t. for_loop n (commit_point w ev) (sx, ds) = Inr t"
proof -
  let ?I = "\<lambda>(k :: nat) (t :: matrix \<times> vec). length (fst t) = length sx
      \<and> length (snd t) = length ds \<and> length (fst t ! w) = length (sx ! w)"
  have "\<exists>t. for_loop n (commit_point w ev) (sx, ds) = Inr t \<and> ?I n t"
  proof (rule for_loop_completes [where I = ?I])
    show "?I 0 (sx, ds)" by simp
  next
    fix i t
    assume "i < n" and "?I i t"
    then show "\<exists>t'. commit_point w ev i t = Inr t' \<and> ?I (Suc i) t'"
      using assms
      by (cases t) (simp add: commit_point_def read_at_def read_at2_def write_at_def write_at2_def)
  qed
  then show ?thesis by blast
qed

text \<open>A call whose accesses are in range completes, with the effect of \<open>replace_worst\<close>.\<close>

lemma reflect_total:
  assumes "w < length (simplex s)" and "num_dimensions s \<le> length (simplex s ! w)"
    and "num_dimensions s \<le> length (simplex_sums s)" and "w < length (func_vals s)"
  shows "\<exists>ev. trial_point s w factor = Inr ev
     \<and> reflect f w factor s =
         Inr (f ev, if f ev < func_vals s ! w then replace_worst s w ev (f ev) else s)"
proof -
  obtain ev where ev: "trial_point s w factor = Inr ev"
    using trial_point_completes [OF assms(1-3)] by blast
  then have n: "length ev = num_dimensions s"
    by (rule trial_point_Inr)
  have "\<exists>t. for_loop (num_dimensions s) (commit_point w ev) (simplex s, simplex_sums s) = Inr t"
    using assms(1-3) n by (intro commit_loop_completes) simp_all
  then obtain sx' ds' where
    "for_loop (num_dimensions s) (commit_point w ev) (simplex s, simplex_sums s) = Inr (sx', ds')"
    by auto
  then have "\<exists>s'. reflect f w factor s = Inr (f ev, s')"
    using ev assms(4) by (simp add: reflect_def Let_def read_at_def write_at_def)
  then obtain s' where r: "reflect f w factor s = Inr (f ev, s')"
    by blast
  show ?thesis
    using reflect_Inr [OF r] ev r by auto
qed

subsection \<open>Facts about dimension_sums, the shrink and the initial evaluation\<close>

lemma column_sum_Inr:
  assumes "for_loop np (add_coordinate sx j) 0 = Inr acc"
  shows "acc = (\<Sum>i<np. sx ! i ! j)" and "\<forall>i<np. i < length sx \<and> j < length (sx ! i)"
proof -
  let ?I = "\<lambda>k a. a = (\<Sum>i<k. sx ! i ! j) \<and> (\<forall>i<k. i < length sx \<and> j < length (sx ! i))"
  have "?I np acc"
    using assms
    by (rule for_loop_invariant [where I = ?I])
       (auto simp: add_coordinate_def and_then_eq_Inr read_at2_eq_Inr less_Suc_eq)
  then show "acc = (\<Sum>i<np. sx ! i ! j)" and "\<forall>i<np. i < length sx \<and> j < length (sx ! i)"
    by simp_all
qed

lemma dimension_sums_Inr:
  assumes "dimension_sums nd np sx = Inr ds"
  shows "length ds = nd" and "\<forall>j<nd. ds ! j = (\<Sum>i<np. sx ! i ! j)"
    and "\<forall>j<nd. \<forall>i<np. i < length sx \<and> j < length (sx ! i)"
proof -
  let ?I = "\<lambda>k t. length t = nd \<and> (\<forall>j<k. t ! j = (\<Sum>i<np. sx ! i ! j))
     \<and> (\<forall>j<k. \<forall>i<np. i < length sx \<and> j < length (sx ! i))"
  have "?I nd ds"
    using assms unfolding dimension_sums_def
  proof (rule for_loop_invariant [where I = ?I])
    show "?I 0 (replicate nd 0)" by simp
  next
    fix k t t'
    assume k: "k < nd" and inv: "?I k t" and step: "sum_dimension np sx k t = Inr t'"
    from step obtain acc where acc: "for_loop np (add_coordinate sx k) 0 = Inr acc"
      and t': "t' = t[k := acc]"
      by (auto simp: sum_dimension_def and_then_eq_Inr write_at_eq_Inr)
    show "?I (Suc k) t'"
      using inv k column_sum_Inr [OF acc] by (auto simp: t' less_Suc_eq)
  qed
  then show "length ds = nd" and "\<forall>j<nd. ds ! j = (\<Sum>i<np. sx ! i ! j)"
    and "\<forall>j<nd. \<forall>i<np. i < length sx \<and> j < length (sx ! i)"
    by simp_all
qed

lemma dimension_sums_completes:
  assumes "np \<le> length sx" and "\<forall>i<np. nd \<le> length (sx ! i)"
  shows "\<exists>ds. dimension_sums nd np sx = Inr ds"
proof -
  have col: "\<exists>acc. for_loop np (add_coordinate sx j) 0 = Inr acc" if "j < nd" for j
  proof -
    have "\<exists>acc. for_loop np (add_coordinate sx j) 0 = Inr acc \<and> True"
      using assms that
      by (intro for_loop_completes [where I = "\<lambda>_ _. True"])
         (auto simp: add_coordinate_def read_at2_def read_at_def)
    then show ?thesis by simp
  qed
  have "\<exists>ds. for_loop nd (sum_dimension np sx) (replicate nd 0) = Inr ds \<and> length ds = nd"
  proof (rule for_loop_completes [where I = "\<lambda>_ t. length t = nd"])
    show "length (replicate nd (0 :: real)) = nd" by simp
  next
    fix k t
    assume "k < nd" and "length (t :: vec) = nd"
    then show "\<exists>t'. sum_dimension np sx k t = Inr t' \<and> length t' = nd"
      using col [of k] by (auto simp: sum_dimension_def write_at_def)
  qed
  then show ?thesis
    by (auto simp: dimension_sums_def)
qed

text \<open>
  The inner loop of the shrink (lines 134-137) after \<open>k\<close> coordinates of row \<open>i\<close>: they
  are the means of the old coordinate and the one of the best row, the scratch vector
  \<open>simplex_sums\<close> holds the same means, and nothing else has changed.
\<close>

definition shrink_inv :: "nat \<Rightarrow> nat \<Rightarrow> matrix \<Rightarrow> vec \<Rightarrow> nat \<Rightarrow> matrix \<times> vec \<Rightarrow> bool" where
  "shrink_inv low i sx ds k = (\<lambda>(sx', ds').
     length sx' = length sx \<and> length ds' = length ds
     \<and> (\<forall>r. r \<noteq> i \<longrightarrow> sx' ! r = sx ! r)
     \<and> length (sx' ! i) = length (sx ! i)
     \<and> (\<forall>j. sx' ! i ! j = (if j < k then (sx ! i ! j + sx ! low ! j) / 2 else sx ! i ! j))
     \<and> (\<forall>j. ds' ! j = (if j < k then (sx ! i ! j + sx ! low ! j) / 2 else ds ! j))
     \<and> (0 < k \<longrightarrow> i < length sx \<and> low < length sx \<and> k \<le> length (sx ! i)
          \<and> k \<le> length (sx ! low) \<and> k \<le> length ds))"

lemma shrink_inv_step:
  assumes "shrink_inv low i sx ds k t" and "shrink_coordinate low i k t = Inr t'" and "i \<noteq> low"
  shows "shrink_inv low i sx ds (Suc k) t'"
proof -
  obtain sx1 ds1 where t: "t = (sx1, ds1)"
    by (cases t) auto
  have inv: "length sx1 = length sx" "length ds1 = length ds"
    "\<forall>r. r \<noteq> i \<longrightarrow> sx1 ! r = sx ! r" "length (sx1 ! i) = length (sx ! i)"
    "\<forall>j. sx1 ! i ! j = (if j < k then (sx ! i ! j + sx ! low ! j) / 2 else sx ! i ! j)"
    "\<forall>j. ds1 ! j = (if j < k then (sx ! i ! j + sx ! low ! j) / 2 else ds ! j)"
    using assms(1) by (simp_all add: shrink_inv_def t)
  have rd: "i < length sx1" "k < length (sx1 ! i)" "low < length sx1" "k < length (sx1 ! low)"
    "k < length ds1"
    and t': "t' = (sx1[i := (sx1 ! i)[k := (sx1 ! i ! k + sx1 ! low ! k) / 2]],
                   ds1[k := (sx1 ! i ! k + sx1 ! low ! k) / 2])"
    using assms(2)
    by (auto simp: shrink_coordinate_def t and_then_eq_Inr read_at_eq_Inr read_at2_eq_Inr
        write_at_eq_Inr write_at2_eq_Inr)
  have old: "sx1 ! i ! k = sx ! i ! k" "sx1 ! low = sx ! low"
    using inv(3,5) assms(3) by simp_all
  have a: "\<forall>j. (sx1 ! i)[k := (sx1 ! i ! k + sx1 ! low ! k) / 2] ! j
      = (if j < Suc k then (sx ! i ! j + sx ! low ! j) / 2 else sx ! i ! j)"
    using inv(5) rd(2) old by (auto simp: nth_list_update less_Suc_eq)
  have b: "\<forall>j. ds1[k := (sx1 ! i ! k + sx1 ! low ! k) / 2] ! j
      = (if j < Suc k then (sx ! i ! j + sx ! low ! j) / 2 else ds ! j)"
    using inv(6) rd(5) old by (auto simp: nth_list_update less_Suc_eq)
  show ?thesis
    using inv(1-4) rd old(2) a b by (simp add: shrink_inv_def t')
qed

lemma shrink_row_result:
  assumes "for_loop n (shrink_coordinate low i) (sx, ds) = Inr (sx', ds')" and "i \<noteq> low"
  shows "sx' = sx[i := map (\<lambda>j. (sx ! i ! j + sx ! low ! j) / 2) [0..<n] @ drop n (sx ! i)]"
    and "ds' = map (\<lambda>j. (sx ! i ! j + sx ! low ! j) / 2) [0..<n] @ drop n ds"
    and "0 < n \<longrightarrow> i < length sx \<and> low < length sx \<and> n \<le> length (sx ! i) \<and> n \<le> length (sx ! low)"
    and "n \<le> length ds"
proof -
  have "shrink_inv low i sx ds n (sx', ds')"
    using assms(1)
  proof (rule for_loop_invariant [where I = "shrink_inv low i sx ds"])
    show "shrink_inv low i sx ds 0 (sx, ds)"
      by (simp add: shrink_inv_def)
  next
    fix k t t'
    assume "shrink_inv low i sx ds k t" and "shrink_coordinate low i k t = Inr t'"
    then show "shrink_inv low i sx ds (Suc k) t'"
      using assms(2) by (rule shrink_inv_step)
  qed
  then have inv: "length sx' = length sx" "length ds' = length ds"
    "\<forall>r. r \<noteq> i \<longrightarrow> sx' ! r = sx ! r" "length (sx' ! i) = length (sx ! i)"
    "\<forall>j. sx' ! i ! j = (if j < n then (sx ! i ! j + sx ! low ! j) / 2 else sx ! i ! j)"
    "\<forall>j. ds' ! j = (if j < n then (sx ! i ! j + sx ! low ! j) / 2 else ds ! j)"
    "n \<le> length (sx ! i)" "n \<le> length ds"
    and more: "0 < n \<longrightarrow> i < length sx \<and> low < length sx \<and> n \<le> length (sx ! i) \<and> n \<le> length (sx ! low)"
    by (auto simp: shrink_inv_def)
  have row: "sx' ! i = map (\<lambda>j. (sx ! i ! j + sx ! low ! j) / 2) [0..<n] @ drop n (sx ! i)"
    using inv(4,7,5) by (rule overwrite_prefix)
  show "sx' = sx[i := map (\<lambda>j. (sx ! i ! j + sx ! low ! j) / 2) [0..<n] @ drop n (sx ! i)]"
  proof (rule nth_equalityI)
    show "length sx' = length (sx[i := map (\<lambda>j. (sx ! i ! j + sx ! low ! j) / 2) [0..<n] @ drop n (sx ! i)])"
      using inv(1) by simp
  next
    fix r
    assume "r < length sx'"
    then show "sx' ! r = sx[i := map (\<lambda>j. (sx ! i ! j + sx ! low ! j) / 2) [0..<n] @ drop n (sx ! i)] ! r"
      using inv(1,3) row by (cases "r = i") simp_all
  qed
  show "ds' = map (\<lambda>j. (sx ! i ! j + sx ! low ! j) / 2) [0..<n] @ drop n ds"
    using inv(2,8,6) by (rule overwrite_prefix)
  show "0 < n \<longrightarrow> i < length sx \<and> low < length sx \<and> n \<le> length (sx ! i) \<and> n \<le> length (sx ! low)"
    by (rule more)
  show "n \<le> length ds" by (rule inv(8))
qed

text \<open>
  Row \<open>i\<close> after its shrink, and the vector the objective is called with at line 138
  (the whole of \<open>simplex_sums\<close>, whose first \<open>num_dimensions_\<close> entries are the new row).
\<close>

definition shrunk_row :: "nelder_mead \<Rightarrow> nat \<Rightarrow> nat \<Rightarrow> vec" where
  "shrunk_row s low i =
     map (\<lambda>j. (simplex s ! i ! j + simplex s ! low ! j) / 2) [0..<num_dimensions s]
     @ drop (num_dimensions s) (simplex s ! i)"

definition shrunk_point :: "nelder_mead \<Rightarrow> nat \<Rightarrow> nat \<Rightarrow> vec" where
  "shrunk_point s low i =
     map (\<lambda>j. (simplex s ! i ! j + simplex s ! low ! j) / 2) [0..<num_dimensions s]
     @ drop (num_dimensions s) (simplex_sums s)"

text \<open>The outer loop of the shrink (lines 132-140) after \<open>k\<close> rows.\<close>

definition shrink_loop_inv ::
  "(vec \<Rightarrow> real) \<Rightarrow> nat \<Rightarrow> nelder_mead \<Rightarrow> nat \<Rightarrow> nelder_mead \<Rightarrow> bool" where
  "shrink_loop_inv f low s k t \<longleftrightarrow>
     num_dimensions t = num_dimensions s \<and> num_points t = num_points s
     \<and> num_evals t = num_evals s \<and> func_min t = func_min s
     \<and> length (simplex t) = length (simplex s)
     \<and> (\<forall>r. simplex t ! r = (if r < k \<and> r \<noteq> low then shrunk_row s low r else simplex s ! r))
     \<and> length (func_vals t) = length (func_vals s)
     \<and> (\<forall>r. func_vals t ! r
            = (if r < k \<and> r \<noteq> low then f (shrunk_point s low r) else func_vals s ! r))
     \<and> length (simplex_sums t) = length (simplex_sums s)
     \<and> drop (num_dimensions s) (simplex_sums t) = drop (num_dimensions s) (simplex_sums s)
     \<and> (\<forall>r<k. r \<noteq> low \<longrightarrow> r < length (func_vals s))"

lemma shrink_loop_inv_step:
  assumes inv: "shrink_loop_inv f low s k t" and step: "shrink_vertex f low k t = Inr t'"
  shows "shrink_loop_inv f low s (Suc k) t'"
proof (cases "k = low")
  case True
  then have "t' = t"
    using step by (simp add: shrink_vertex_def)
  then show ?thesis
    using inv True by (auto simp: shrink_loop_inv_def less_Suc_eq)
next
  case False
  let ?nd = "num_dimensions s"
  from step False obtain sx' ds'
    where loop: "for_loop (num_dimensions t) (shrink_coordinate low k) (simplex t, simplex_sums t)
        = Inr (sx', ds')"
      and k: "k < length (func_vals t)"
      and t': "t' = t\<lparr>simplex := sx', func_vals := (func_vals t)[k := f ds'], simplex_sums := ds'\<rparr>"
    by (auto simp: shrink_vertex_def and_then_eq_Inr write_at_eq_Inr split: prod.splits)
  have nd: "num_dimensions t = ?nd"
    using inv by (simp add: shrink_loop_inv_def)
  have rows: "simplex t ! k = simplex s ! k" "simplex t ! low = simplex s ! low"
    using inv by (simp_all add: shrink_loop_inv_def)
  have sx': "sx' = (simplex t)[k := shrunk_row s low k]"
    using shrink_row_result(1) [OF loop False] by (simp add: nd rows shrunk_row_def)
  have len: "?nd \<le> length (simplex_sums t)"
    using shrink_row_result(4) [OF loop False] by (simp add: nd)
  have tail: "drop ?nd (simplex_sums t) = drop ?nd (simplex_sums s)"
    using inv by (simp add: shrink_loop_inv_def)
  have ds': "ds' = shrunk_point s low k"
    using shrink_row_result(2) [OF loop False] by (simp add: nd rows shrunk_point_def tail)
  have same_len: "length (simplex_sums t) = length (simplex_sums s)"
    using inv by (simp add: shrink_loop_inv_def)
  have ds'_len: "length ds' = length (simplex_sums s)" "drop ?nd ds' = drop ?nd (simplex_sums s)"
    using len same_len by (simp_all add: ds' shrunk_point_def)
  have newrow: "sx' ! k = shrunk_row s low k"
  proof (cases "k < length (simplex t)")
    case True
    then show ?thesis by (simp add: sx')
  next
    case False
    then have "?nd = 0"
      using shrink_row_result(3) [OF loop \<open>k \<noteq> low\<close>] by (auto simp: nd)
    then show ?thesis
      using False by (simp add: sx' shrunk_row_def rows list_update_beyond)
  qed
  have simplex': "\<forall>r. simplex t' ! r
      = (if r < Suc k \<and> r \<noteq> low then shrunk_row s low r else simplex s ! r)"
  proof
    fix r
    show "simplex t' ! r = (if r < Suc k \<and> r \<noteq> low then shrunk_row s low r else simplex s ! r)"
    proof (cases "r = k")
      case True
      then show ?thesis using newrow False by (simp add: t')
    next
      case False
      then show ?thesis
        using inv by (auto simp: t' sx' shrink_loop_inv_def less_Suc_eq)
    qed
  qed
  have vals': "\<forall>r. func_vals t' ! r
      = (if r < Suc k \<and> r \<noteq> low then f (shrunk_point s low r) else func_vals s ! r)"
    using inv k False by (auto simp: t' ds' shrink_loop_inv_def less_Suc_eq nth_list_update)
  have "length (func_vals t) = length (func_vals s)"
    using inv by (simp add: shrink_loop_inv_def)
  then have seen: "\<forall>r<Suc k. r \<noteq> low \<longrightarrow> r < length (func_vals s)"
    using inv k by (auto simp: shrink_loop_inv_def less_Suc_eq)
  show ?thesis
    unfolding shrink_loop_inv_def
    using inv simplex' vals' seen ds'_len
    by (simp add: shrink_loop_inv_def t' sx')
qed

lemma shrink_Inr:
  assumes "shrink f low s = Inr s'"
  shows "num_dimensions s' = num_dimensions s \<and> num_points s' = num_points s
      \<and> func_min s' = func_min s \<and> num_evals s' = num_evals s + num_dimensions s"
    and "length (simplex s') = length (simplex s)"
    and "\<forall>r. simplex s' ! r
          = (if r < num_points s \<and> r \<noteq> low then shrunk_row s low r else simplex s ! r)"
    and "length (func_vals s') = length (func_vals s)"
    and "\<forall>r. func_vals s' ! r
          = (if r < num_points s \<and> r \<noteq> low then f (shrunk_point s low r) else func_vals s ! r)"
    and "length (simplex_sums s') = num_dimensions s"
    and "\<forall>j<num_dimensions s. simplex_sums s' ! j = (\<Sum>i<num_points s. simplex s' ! i ! j)"
    and "\<forall>j<num_dimensions s. \<forall>i<num_points s. i < length (simplex s') \<and> j < length (simplex s' ! i)"
    and "\<forall>r<num_points s. r \<noteq> low \<longrightarrow> r < length (func_vals s)"
proof -
  from assms obtain s1 ds
    where loop: "for_loop (num_points s) (shrink_vertex f low) s = Inr s1"
      and ds: "dimension_sums (num_dimensions s1) (num_points s1) (simplex s1) = Inr ds"
      and s': "s' = s1\<lparr>num_evals := num_evals s1 + num_dimensions s1, simplex_sums := ds\<rparr>"
    by (auto simp: shrink_def Let_def and_then_eq_Inr)
  have "shrink_loop_inv f low s (num_points s) s1"
    using loop
  proof (rule for_loop_invariant [where I = "shrink_loop_inv f low s"])
    show "shrink_loop_inv f low s 0 s"
      by (simp add: shrink_loop_inv_def)
  next
    fix k t t'
    assume "shrink_loop_inv f low s k t" and "shrink_vertex f low k t = Inr t'"
    then show "shrink_loop_inv f low s (Suc k) t'"
      by (rule shrink_loop_inv_step)
  qed
  then have inv: "num_dimensions s1 = num_dimensions s" "num_points s1 = num_points s"
    "num_evals s1 = num_evals s" "func_min s1 = func_min s"
    "length (simplex s1) = length (simplex s)"
    "\<forall>r. simplex s1 ! r
       = (if r < num_points s \<and> r \<noteq> low then shrunk_row s low r else simplex s ! r)"
    "length (func_vals s1) = length (func_vals s)"
    "\<forall>r. func_vals s1 ! r
       = (if r < num_points s \<and> r \<noteq> low then f (shrunk_point s low r) else func_vals s ! r)"
    "\<forall>r<num_points s. r \<noteq> low \<longrightarrow> r < length (func_vals s)"
    by (simp_all add: shrink_loop_inv_def)
  show "num_dimensions s' = num_dimensions s \<and> num_points s' = num_points s
      \<and> func_min s' = func_min s \<and> num_evals s' = num_evals s + num_dimensions s"
    using inv(1-4) by (simp add: s')
  show "length (simplex s') = length (simplex s)"
    using inv(5) by (simp add: s')
  show "\<forall>r. simplex s' ! r
          = (if r < num_points s \<and> r \<noteq> low then shrunk_row s low r else simplex s ! r)"
    using inv(6) by (simp add: s')
  show "length (func_vals s') = length (func_vals s)"
    using inv(7) by (simp add: s')
  show "\<forall>r. func_vals s' ! r
          = (if r < num_points s \<and> r \<noteq> low then f (shrunk_point s low r) else func_vals s ! r)"
    using inv(8) by (simp add: s')
  show "length (simplex_sums s') = num_dimensions s"
    using dimension_sums_Inr(1) [OF ds] inv(1) by (simp add: s')
  show "\<forall>j<num_dimensions s. simplex_sums s' ! j = (\<Sum>i<num_points s. simplex s' ! i ! j)"
    using dimension_sums_Inr(2) [OF ds] inv(1,2) by (simp add: s')
  show "\<forall>j<num_dimensions s. \<forall>i<num_points s. i < length (simplex s') \<and> j < length (simplex s' ! i)"
    using dimension_sums_Inr(3) [OF ds] inv(1,2) by (simp add: s')
  show "\<forall>r<num_points s. r \<noteq> low \<longrightarrow> r < length (func_vals s)"
    by (rule inv(9))
qed

lemma load_row_Inr:
  assumes "for_loop n (load_point sx i) ep = Inr ep'" and "length ep = n"
  shows "ep' = take n (sx ! i)" and "n \<le> length (sx ! i)" and "0 < n \<longrightarrow> i < length sx"
proof -
  let ?I = "\<lambda>k t. length t = n \<and> (\<forall>j<k. t ! j = sx ! i ! j \<and> j < length (sx ! i) \<and> i < length sx)"
  have "?I n ep'"
    using assms(1)
    by (rule for_loop_invariant [where I = ?I])
       (auto simp: assms(2) load_point_def and_then_eq_Inr read_at2_eq_Inr write_at_eq_Inr
         less_Suc_eq)
  then have inv: "length ep' = n" "\<forall>j<n. ep' ! j = sx ! i ! j \<and> j < length (sx ! i) \<and> i < length sx"
    by simp_all
  show len: "n \<le> length (sx ! i)"
    using inv(2) by (cases n) (auto simp: less_Suc_eq Suc_le_eq)
  show "0 < n \<longrightarrow> i < length sx"
    using inv(2) by auto
  show "ep' = take n (sx ! i)"
    using inv len by (intro nth_equalityI) simp_all
qed

text \<open>The evaluation loop of lines 57-62 after \<open>k\<close> rows.\<close>

definition evaluate_inv ::
  "(vec \<Rightarrow> real) \<Rightarrow> nat \<Rightarrow> nat \<Rightarrow> matrix \<Rightarrow> nat \<Rightarrow> vec \<times> vec \<Rightarrow> bool" where
  "evaluate_inv f nd np sx k = (\<lambda>(ep, vals).
     length ep = nd \<and> length vals = np
     \<and> (\<forall>i<k. vals ! i = f (take nd (sx ! i)) \<and> nd \<le> length (sx ! i)
            \<and> (0 < nd \<longrightarrow> i < length sx)))"

lemma evaluate_inv_step:
  assumes "evaluate_inv f nd np sx k t" and "evaluate_vertex f nd sx k t = Inr t'"
  shows "evaluate_inv f nd np sx (Suc k) t'"
proof -
  obtain ep vals where t: "t = (ep, vals)"
    by (cases t) auto
  have inv: "length ep = nd" "length vals = np"
    "\<forall>i<k. vals ! i = f (take nd (sx ! i)) \<and> nd \<le> length (sx ! i) \<and> (0 < nd \<longrightarrow> i < length sx)"
    using assms(1) by (simp_all add: evaluate_inv_def t)
  from assms(2) obtain ep' where ep': "for_loop nd (load_point sx k) ep = Inr ep'"
    and k: "k < length vals" and t': "t' = (ep', vals[k := f ep'])"
    by (auto simp: evaluate_vertex_def t and_then_eq_Inr write_at_eq_Inr)
  note row = load_row_Inr [OF ep' inv(1)]
  have "length ep' = nd"
    using row(1,2) by simp
  then show ?thesis
    using inv k row by (auto simp: evaluate_inv_def t' less_Suc_eq nth_list_update)
qed

lemma initialise_Inr:
  assumes "initialise f initial_simplex = Inr s"
  shows "num_dimensions s = length initial_simplex \<and> num_points s = length (initial_simplex ! 0)
      \<and> num_evals s = 0 \<and> simplex s = initial_simplex \<and> initial_simplex \<noteq> []"
    and "length (func_vals s) = num_points s"
    and "\<forall>i<num_points s. func_vals s ! i = f (take (num_dimensions s) (simplex s ! i))
          \<and> i < length (simplex s) \<and> num_dimensions s \<le> length (simplex s ! i)"
    and "length (simplex_sums s) = num_dimensions s"
    and "\<forall>j<num_dimensions s. simplex_sums s ! j = (\<Sum>i<num_points s. simplex s ! i ! j)"
proof -
  let ?nd = "length initial_simplex" and ?np = "length (initial_simplex ! 0)"
  from assms obtain ep vals ds
    where ne: "initial_simplex \<noteq> []"
      and loop: "for_loop ?np (evaluate_vertex f ?nd initial_simplex)
          (replicate ?nd 0, replicate ?np 0) = Inr (ep, vals)"
      and ds: "dimension_sums ?nd ?np initial_simplex = Inr ds"
      and s: "s = \<lparr>num_dimensions = ?nd, num_points = ?np, num_evals = 0,
          simplex = initial_simplex, func_vals = vals, func_min = 0, simplex_sums = ds\<rparr>"
    by (auto simp: initialise_def Let_def and_then_eq_Inr read_at_eq_Inr split: prod.splits)
  have "evaluate_inv f ?nd ?np initial_simplex ?np (ep, vals)"
    using loop
  proof (rule for_loop_invariant [where I = "evaluate_inv f ?nd ?np initial_simplex"])
    show "evaluate_inv f ?nd ?np initial_simplex 0 (replicate ?nd 0, replicate ?np 0)"
      by (simp add: evaluate_inv_def)
  next
    fix k t t'
    assume "evaluate_inv f ?nd ?np initial_simplex k t"
      and "evaluate_vertex f ?nd initial_simplex k t = Inr t'"
    then show "evaluate_inv f ?nd ?np initial_simplex (Suc k) t'"
      by (rule evaluate_inv_step)
  qed
  then have inv: "length vals = ?np"
    "\<forall>i<?np. vals ! i = f (take ?nd (initial_simplex ! i)) \<and> ?nd \<le> length (initial_simplex ! i)
        \<and> (0 < ?nd \<longrightarrow> i < ?nd)"
    by (simp_all add: evaluate_inv_def)
  show "num_dimensions s = length initial_simplex \<and> num_points s = length (initial_simplex ! 0)
      \<and> num_evals s = 0 \<and> simplex s = initial_simplex \<and> initial_simplex \<noteq> []"
    using ne by (simp add: s)
  show "length (func_vals s) = num_points s"
    using inv(1) by (simp add: s)
  show "\<forall>i<num_points s. func_vals s ! i = f (take (num_dimensions s) (simplex s ! i))
          \<and> i < length (simplex s) \<and> num_dimensions s \<le> length (simplex s ! i)"
    using inv(2) ne by (simp add: s)
  show "length (simplex_sums s) = num_dimensions s"
    using dimension_sums_Inr(1) [OF ds] by (simp add: s)
  show "\<forall>j<num_dimensions s. simplex_sums s ! j = (\<Sum>i<num_points s. simplex s ! i ! j)"
    using dimension_sums_Inr(2) [OF ds] by (simp add: s)
qed

subsection \<open>The failures of the primitives\<close>

text \<open>
  Every primitive below the loop can only fail by an access out of range; the one
  \<open>throw\<close> of the source is in the loop body.
\<close>

definition only_out_of_range :: "error + 'a \<Rightarrow> bool" where
  "only_out_of_range m \<longleftrightarrow> (case m of Inl e \<Rightarrow> e = OutOfRange | Inr _ \<Rightarrow> True)"

lemma oor_Inr [simp]: "only_out_of_range (Inr x)"
  by (simp add: only_out_of_range_def)

lemma oor_Inl [simp]: "only_out_of_range (Inl e) \<longleftrightarrow> e = OutOfRange"
  by (simp add: only_out_of_range_def)

lemma oor_and_then:
  assumes "only_out_of_range m" and "\<And>x. only_out_of_range (k x)"
  shows "only_out_of_range (and_then m k)"
  using assms by (cases m) simp_all

lemma oor_read_at [simp]: "only_out_of_range (read_at xs i)"
  by (simp add: read_at_def)

lemma oor_write_at [simp]: "only_out_of_range (write_at xs i v)"
  by (simp add: write_at_def)

lemma oor_read_at2 [simp]: "only_out_of_range (read_at2 m i j)"
  by (simp add: read_at2_def oor_and_then)

lemma oor_write_at2 [simp]: "only_out_of_range (write_at2 m i j v)"
  by (simp add: write_at2_def oor_and_then)

lemma oor_for_loop:
  assumes "\<And>i t. only_out_of_range (body i t)"
  shows "only_out_of_range (for_loop n body s)"
proof (cases "for_loop n body s")
  case (Inl e)
  then have "e = OutOfRange"
  proof (rule for_loop_error)
    fix i t
    assume "body i t = Inl e"
    then show "e = OutOfRange"
      using assms [of i t] by simp
  qed
  with Inl show ?thesis by simp
next
  case (Inr t)
  then show ?thesis by simp
qed

lemma oor_case_prod:
  assumes "\<And>a b. only_out_of_range (k a b)"
  shows "only_out_of_range (case p of (a, b) \<Rightarrow> k a b)"
  using assms by (cases p) simp

lemmas oor_intros = oor_and_then oor_for_loop oor_case_prod

lemma oor_dimension_sums [simp]: "only_out_of_range (dimension_sums nd np sx)"
  unfolding dimension_sums_def sum_dimension_def add_coordinate_def
  by (intro oor_intros) simp_all

lemma oor_trial_point [simp]: "only_out_of_range (trial_point s w factor)"
  unfolding trial_point_def trial_coordinate_def Let_def
  by (intro oor_intros) simp_all

lemma oor_commit_point [simp]: "only_out_of_range (commit_point w ev j t)"
  unfolding commit_point_def
  by (intro oor_intros) simp_all

lemma oor_reflect [simp]: "only_out_of_range (reflect f w factor s)"
  unfolding reflect_def Let_def
  by (intro oor_intros) (simp_all add: oor_intros)

lemma oor_shrink [simp]: "only_out_of_range (shrink f low s)"
  unfolding shrink_def shrink_vertex_def shrink_coordinate_def Let_def
  by (intro oor_intros) (simp_all add: oor_intros)

lemma oor_geometric_operator [simp]: "only_out_of_range (geometric_operator f low high nh s)"
  unfolding geometric_operator_def Let_def
  by (intro oor_intros) (simp_all add: oor_intros)

lemma oor_ranking [simp]: "only_out_of_range (ranking vals np)"
  unfolding ranking_def rank_step_def Let_def
  by (intro oor_intros) (simp_all add: oor_intros)

lemma oor_tolerance [simp]: "only_out_of_range (tolerance cfg vals low high)"
  unfolding tolerance_def
  by (intro oor_intros) simp_all

lemma oor_return_best [simp]: "only_out_of_range (return_best s low)"
  unfolding return_best_def
  by (intro oor_intros) simp_all

lemma oor_initialise [simp]: "only_out_of_range (initialise f sx)"
  unfolding initialise_def evaluate_vertex_def load_point_def Let_def
  by (intro oor_intros) (simp_all add: oor_intros)

lemma oor_InlD: "m = Inl e \<Longrightarrow> only_out_of_range m \<Longrightarrow> e = OutOfRange"
  by simp

subsection \<open>Facts about the loop\<close>

text \<open>
  \<open>nm_reaches cfg f s t\<close>: the loop entered in state \<open>s\<close> begins a pass in state \<open>t\<close>.
\<close>

inductive nm_reaches :: "config \<Rightarrow> (vec \<Rightarrow> real) \<Rightarrow> nelder_mead \<Rightarrow> nelder_mead \<Rightarrow> bool"
  for cfg :: config and f :: "vec \<Rightarrow> real" where
    here: "nm_reaches cfg f s s"
  | pass: "nm_step cfg f s = Inr (Continue s') \<Longrightarrow> nm_reaches cfg f s' s'' \<Longrightarrow> nm_reaches cfg f s s''"

lemma nm_loop_Inr:
  assumes "nm_loop cfg f s = Inr (v, s')"
  shows "\<exists>t. nm_reaches cfg f s t \<and> nm_step cfg f t = Inr (Returned v s')"
  using assms
proof (induction cfg f s rule: nm_loop.induct)
  case (1 cfg f s)
  show ?case
  proof (cases "nm_step cfg f s")
    case (Inl e)
    then show ?thesis
      using "1.prems" by (simp add: nm_loop.simps)
  next
    case (Inr out)
    show ?thesis
    proof (cases out)
      case (Returned v' t')
      then show ?thesis
        using "1.prems" Inr by (auto simp: nm_loop.simps intro: nm_reaches.here)
    next
      case (Continue t)
      then have "nm_loop cfg f t = Inr (v, s')"
        using "1.prems" Inr by (simp add: nm_loop.simps)
      then obtain u where "nm_reaches cfg f t u" and "nm_step cfg f u = Inr (Returned v s')"
        using "1.IH" Inr Continue by blast
      then show ?thesis
        using Inr Continue by (blast intro: nm_reaches.pass)
    qed
  qed
qed

lemma nm_loop_Inl:
  assumes "nm_loop cfg f s = Inl e"
  shows "\<exists>t. nm_reaches cfg f s t \<and> nm_step cfg f t = Inl e"
  using assms
proof (induction cfg f s rule: nm_loop.induct)
  case (1 cfg f s)
  show ?case
  proof (cases "nm_step cfg f s")
    case (Inl e')
    then show ?thesis
      using "1.prems" by (auto simp: nm_loop.simps intro: nm_reaches.here)
  next
    case (Inr out)
    show ?thesis
    proof (cases out)
      case (Returned v' t')
      then show ?thesis
        using "1.prems" Inr by (simp add: nm_loop.simps)
    next
      case (Continue t)
      then have "nm_loop cfg f t = Inl e"
        using "1.prems" Inr by (simp add: nm_loop.simps)
      then obtain u where "nm_reaches cfg f t u" and "nm_step cfg f u = Inl e"
        using "1.IH" Inr Continue by blast
      then show ?thesis
        using Inr Continue by (blast intro: nm_reaches.pass)
    qed
  qed
qed

text \<open>The three ways out of one pass.\<close>

lemma nm_step_Returned:
  assumes "nm_step cfg f s = Inr (Returned v s')"
  shows "\<exists>low high nh tol. ranking (func_vals s) (num_points s) = Inr (low, high, nh)
    \<and> tolerance cfg (func_vals s) low high = Inr tol \<and> tol < function_tol cfg
    \<and> return_best s low = Inr (v, s')"
  using assms
  by (auto simp: nm_step_def and_then_eq_Inr split: if_splits prod.splits)

lemma nm_step_Continue:
  assumes "nm_step cfg f s = Inr (Continue s')"
  shows "\<exists>low high nh tol. ranking (func_vals s) (num_points s) = Inr (low, high, nh)
    \<and> tolerance cfg (func_vals s) low high = Inr tol \<and> \<not> tol < function_tol cfg
    \<and> num_evals s < MAX_ITERS cfg \<and> geometric_operator f low high nh s = Inr s'"
  using assms
  by (auto simp: nm_step_def and_then_eq_Inr split: if_splits prod.splits)

lemma nm_step_MaxIterationsExceeded:
  assumes "nm_step cfg f s = Inl MaxIterationsExceeded"
  shows "\<exists>low high nh tol. ranking (func_vals s) (num_points s) = Inr (low, high, nh)
    \<and> tolerance cfg (func_vals s) low high = Inr tol \<and> \<not> tol < function_tol cfg
    \<and> MAX_ITERS cfg \<le> num_evals s"
proof -
  have no: "m \<noteq> Inl MaxIterationsExceeded" if "only_out_of_range m" for m :: "error + 'a"
    using that by (cases m) auto
  show ?thesis
    using assms no [of "ranking (func_vals s) (num_points s)"]
      no [of "tolerance cfg (func_vals s) _ _"] no [of "return_best s _"]
      no [of "geometric_operator f _ _ _ s"]
    by (auto simp: nm_step_def and_then_eq_Inl and_then_eq_Inr split: if_splits prod.splits)
qed

lemma nm_step_converged:
  assumes "ranking (func_vals s) (num_points s) = Inr (low, high, nh)"
    and "tolerance cfg (func_vals s) low high = Inr tol" and "tol < function_tol cfg"
  shows "nm_step cfg f s = and_then (return_best s low) (\<lambda>(v, s'). Inr (Returned v s'))"
  using assms by (simp add: nm_step_def)

lemma nm_loop_converged:
  assumes "ranking (func_vals s) (num_points s) = Inr (low, high, nh)"
    and "tolerance cfg (func_vals s) low high = Inr tol" and "tol < function_tol cfg"
  shows "nm_loop cfg f s = return_best s low"
  using nm_step_converged [OF assms, of f]
  by (cases "return_best s low") (auto simp: nm_loop.simps)

text \<open>The convergence branch and the spread, in closed form.\<close>

lemma return_best_eq:
  assumes "low < length (func_vals s)" and "low < length (simplex s)"
  shows "return_best s low = Inr (simplex s ! low,
    s\<lparr>simplex := (simplex s)[0 := simplex s ! low, low := simplex s ! 0],
      func_vals := (func_vals s)[0 := func_vals s ! low, low := func_vals s ! 0],
      func_min := func_vals s ! low\<rparr>)"
proof -
  have "0 < length (func_vals s)" "0 < length (simplex s)"
    using assms by auto
  then show ?thesis
    using assms by (cases "low = 0") (simp_all add: return_best_def read_at_def write_at_def)
qed

lemma tolerance_Inr:
  "tolerance cfg vals low high = Inr tol \<longleftrightarrow>
     low < length vals \<and> high < length vals
     \<and> tol = 2 * \<bar>vals ! high - vals ! low\<bar> / (\<bar>vals ! high\<bar> + \<bar>vals ! low\<bar> + EPSILON cfg)"
  by (auto simp: tolerance_def and_then_eq_Inr read_at_eq_Inr)

lemma nm_step_errors:
  assumes "nm_step cfg f s = Inl e"
  shows "e = OutOfRange \<or> e = MaxIterationsExceeded"
  using assms
  by (auto simp: nm_step_def and_then_eq_Inl and_then_eq_Inr split: if_splits prod.splits
      dest: oor_InlD [OF _ oor_ranking] oor_InlD [OF _ oor_tolerance]
        oor_InlD [OF _ oor_return_best] oor_InlD [OF _ oor_geometric_operator])

lemma minimize_errors:
  assumes "minimize cfg f initial_simplex = Inl e"
  shows "e = OutOfRange \<or> e = MaxIterationsExceeded"
proof (cases "initialise f initial_simplex")
  case (Inl e')
  then have "e' = OutOfRange"
    using oor_initialise [of f initial_simplex] by simp
  then show ?thesis
    using assms Inl by (simp add: minimize_def)
next
  case (Inr s)
  then have "nm_loop cfg f s = Inl e"
    using assms by (simp add: minimize_def)
  then show ?thesis
    using nm_loop_Inl nm_step_errors by blast
qed

subsection \<open>The values stay paired with the vertices\<close>

text \<open>
  The invariant of the data model: the value at index \<open>i\<close> is the objective at the first
  \<open>num_dimensions_\<close> coordinates of row \<open>i\<close> (the coordinates the code evaluates), for
  each of the \<open>num_points_\<close> rows; the two cached vectors have their nominal lengths.
\<close>

definition paired :: "(vec \<Rightarrow> real) \<Rightarrow> nelder_mead \<Rightarrow> bool" where
  "paired f s \<longleftrightarrow>
     length (func_vals s) = num_points s \<and> length (simplex_sums s) = num_dimensions s
     \<and> (\<forall>i<num_points s. func_vals s ! i = f (take (num_dimensions s) (simplex s ! i)))"

lemma paired_num_evals [simp]: "paired f (s\<lparr>num_evals := n\<rparr>) = paired f s"
  by (simp add: paired_def)

lemma paired_replace_worst:
  assumes "paired f s" and "trial_point s w factor = Inr ev" and "w < length (func_vals s)"
  shows "paired f (replace_worst s w ev (f ev))"
proof -
  have n: "length ev = num_dimensions s"
    using assms(2) by (rule trial_point_Inr)
  have row: "take (num_dimensions s) ((simplex s)[w := ev @ drop (length ev) (simplex s ! w)] ! w) = ev"
  proof (cases "w < length (simplex s)")
    case True
    then show ?thesis by (simp add: n)
  next
    case False
    then have "num_dimensions s = 0"
      using trial_point_Inr(2) [OF assms(2)] by auto
    then show ?thesis
      using n by simp
  qed
  have "func_vals (replace_worst s w ev (f ev)) ! i
      = f (take (num_dimensions s) (simplex (replace_worst s w ev (f ev)) ! i))"
    if "i < num_points s" for i
  proof (cases "i = w")
    case True
    then show ?thesis
      using assms(3) row by (simp add: replace_worst_def)
  next
    case False
    then show ?thesis
      using assms(1) that by (simp add: replace_worst_def paired_def)
  qed
  then show ?thesis
    using assms(1) n by (simp add: paired_def replace_worst_def)
qed

lemma paired_reflect:
  assumes "paired f s" and "reflect f w factor s = Inr (v, s')"
  shows "paired f s'"
proof -
  obtain ev where ev: "trial_point s w factor = Inr ev" "v = f ev" "w < length (func_vals s)"
    "v < func_vals s ! w \<longrightarrow> s' = replace_worst s w ev v" "\<not> v < func_vals s ! w \<longrightarrow> s' = s"
    using reflect_Inr [OF assms(2)] by blast
  show ?thesis
  proof (cases "v < func_vals s ! w")
    case True
    then show ?thesis
      using ev paired_replace_worst [OF assms(1) ev(1) ev(3)] by simp
  next
    case False
    then show ?thesis
      using ev assms(1) by simp
  qed
qed

lemma paired_shrink:
  assumes "paired f s" and "shrink f low s = Inr s'"
  shows "paired f s'"
proof -
  note r = shrink_Inr [OF assms(2)]
  have sums: "length (simplex_sums s) = num_dimensions s"
    using assms(1) by (simp add: paired_def)
  have "func_vals s' ! i = f (take (num_dimensions s) (simplex s' ! i))" if "i < num_points s" for i
  proof (cases "i = low")
    case True
    then show ?thesis
      using r(3,5) assms(1) that by (simp add: paired_def)
  next
    case False
    have "shrunk_point s low i = take (num_dimensions s) (shrunk_row s low i)"
      by (simp add: shrunk_point_def shrunk_row_def sums)
    then show ?thesis
      using r(3,5) that False by simp
  qed
  then show ?thesis
    using r(1,4,6) assms(1) by (simp add: paired_def)
qed

lemma paired_geometric_operator:
  assumes "paired f s" and "geometric_operator f low high nh s = Inr s'"
  shows "paired f s'"
  using assms
  by (auto simp: geometric_operator_def Let_def and_then_eq_Inr
      split: if_splits prod.splits
      dest!: paired_reflect [rotated] paired_shrink [rotated])

lemma paired_initialise:
  assumes "initialise f initial_simplex = Inr s"
  shows "paired f s"
  using initialise_Inr [OF assms] by (simp add: paired_def)

lemma paired_reaches:
  assumes "nm_reaches cfg f s t" and "paired f s"
  shows "paired f t"
  using assms
proof (induction rule: nm_reaches.induct)
  case (here s)
  then show ?case by simp
next
  case (pass s s' s'')
  then show ?case
    using nm_step_Continue paired_geometric_operator by blast
qed

subsection \<open>The convergence branch\<close>

text \<open>
  The state after lines 97-100, and the fractional spread of lines 90-93.
\<close>

definition swapped_to_front :: "nelder_mead \<Rightarrow> nat \<Rightarrow> nelder_mead" where
  "swapped_to_front s low =
     s\<lparr>simplex := (simplex s)[0 := simplex s ! low, low := simplex s ! 0],
       func_vals := (func_vals s)[0 := func_vals s ! low, low := func_vals s ! 0],
       func_min := func_vals s ! low\<rparr>"

definition spread :: "config \<Rightarrow> real \<Rightarrow> real \<Rightarrow> real" where
  "spread cfg v_high v_low = 2 * \<bar>v_high - v_low\<bar> / (\<bar>v_high\<bar> + \<bar>v_low\<bar> + EPSILON cfg)"

lemma swapped_nth:
  assumes "low < length xs"
  shows "xs[0 := xs ! low, low := xs ! 0] ! i = (if i = 0 then xs ! low else if i = low then xs ! 0 else xs ! i)"
  using assms by (cases "i < length xs") (auto simp: nth_list_update)

lemma swapped_minimal:
  assumes "low < np" and "np \<le> length vals" and "\<forall>i<np. vals ! low \<le> (vals ! i :: real)"
    and "i < np"
  shows "vals[0 := vals ! low, low := vals ! 0] ! 0 \<le> vals[0 := vals ! low, low := vals ! 0] ! i"
proof -
  have "low < length vals"
    using assms(1,2) by simp
  then show ?thesis
    using assms by (auto simp: swapped_nth)
qed

lemma paired_swapped:
  assumes "paired f s" and "low < num_points s" and "low < length (simplex s)"
  shows "paired f (swapped_to_front s low)"
proof -
  have len: "low < length (func_vals s)" "low < length (simplex s)"
    using assms by (simp_all add: paired_def)
  have "0 < num_points s"
    using assms(2) by simp
  then show ?thesis
    using assms(1,2) len by (auto simp: paired_def swapped_to_front_def swapped_nth)
qed

lemma pass_at_convergence:
  assumes "2 \<le> num_points s" and "num_points s \<le> length (func_vals s)"
    and "num_points s \<le> length (simplex s)"
  shows "\<exists>low high nh. ranking (func_vals s) (num_points s) = Inr (low, high, nh)
     \<and> low < num_points s
     \<and> tolerance cfg (func_vals s) low high
         = Inr (spread cfg (func_vals s ! high) (func_vals s ! low))
     \<and> (spread cfg (func_vals s ! high) (func_vals s ! low) < function_tol cfg \<longrightarrow>
           nm_step cfg f s = Inr (Returned (simplex s ! low) (swapped_to_front s low))
           \<and> nm_loop cfg f s = Inr (simplex s ! low, swapped_to_front s low)
           \<and> simplex (swapped_to_front s low) ! 0 = simplex s ! low
           \<and> (\<forall>i<num_points s. func_vals (swapped_to_front s low) ! 0
                                 \<le> func_vals (swapped_to_front s low) ! i))
     \<and> (\<not> spread cfg (func_vals s ! high) (func_vals s ! low) < function_tol cfg \<longrightarrow>
           (\<forall>v s'. nm_step cfg f s \<noteq> Inr (Returned v s')))"
proof -
  obtain low high nh where r: "ranking (func_vals s) (num_points s) = Inr (low, high, nh)"
    and b: "low < num_points s" "high < num_points s"
    and least: "\<forall>i<num_points s. func_vals s ! low \<le> func_vals s ! i"
    using ranking_total [OF assms(1,2)] by blast
  have len: "low < length (func_vals s)" "high < length (func_vals s)" "low < length (simplex s)"
    using b assms(2,3) by simp_all
  let ?sp = "spread cfg (func_vals s ! high) (func_vals s ! low)"
  have tol: "tolerance cfg (func_vals s) low high = Inr ?sp"
    using len by (simp add: tolerance_Inr spread_def)
  have best: "return_best s low = Inr (simplex s ! low, swapped_to_front s low)"
    using len by (simp add: return_best_eq swapped_to_front_def)
  have yes: "nm_step cfg f s = Inr (Returned (simplex s ! low) (swapped_to_front s low))
      \<and> nm_loop cfg f s = Inr (simplex s ! low, swapped_to_front s low)"
    if "?sp < function_tol cfg"
    using nm_step_converged [OF r tol that, of f] nm_loop_converged [OF r tol that, of f] best
    by simp
  have first: "simplex (swapped_to_front s low) ! 0 = simplex s ! low"
    using len(3) by (simp add: swapped_to_front_def swapped_nth)
  have minimal: "\<forall>i<num_points s. func_vals (swapped_to_front s low) ! 0
      \<le> func_vals (swapped_to_front s low) ! i"
    using swapped_minimal [OF b(1) assms(2) least] by (simp add: swapped_to_front_def)
  have no: "nm_step cfg f s \<noteq> Inr (Returned v s')" if "\<not> ?sp < function_tol cfg" for v s'
    using that r tol by (auto dest!: nm_step_Returned)
  show ?thesis
    using r b(1) tol yes first minimal no by blast
qed

lemma return_best_Inr:
  assumes "return_best s low = Inr r"
  shows "low < length (func_vals s) \<and> low < length (simplex s)
    \<and> r = (simplex s ! low, swapped_to_front s low)"
proof -
  have "low < length (func_vals s)" "low < length (simplex s)"
    using assms by (auto simp: return_best_def and_then_eq_Inr read_at_eq_Inr)
  then show ?thesis
    using assms by (simp add: return_best_eq swapped_to_front_def)
qed

lemma ranking_Inr_two:
  assumes "ranking vals np = Inr r"
  shows "2 \<le> length vals"
  using assms by (auto simp: ranking_def and_then_eq_Inr read_at_eq_Inr)

lemma minimize_returns_least:
  assumes "minimize cfg f initial_simplex = Inr (v, s')"
  shows "v = simplex s' ! 0 \<and> func_min s' = f (take (num_dimensions s') v)
    \<and> (\<forall>i<num_points s'. f (take (num_dimensions s') v)
                           \<le> f (take (num_dimensions s') (simplex s' ! i)))"
proof -
  from assms obtain s0 where s0: "initialise f initial_simplex = Inr s0"
    and loop: "nm_loop cfg f s0 = Inr (v, s')"
    by (auto simp: minimize_def and_then_eq_Inr)
  obtain t where t: "nm_reaches cfg f s0 t" and last: "nm_step cfg f t = Inr (Returned v s')"
    using nm_loop_Inr [OF loop] by blast
  have p: "paired f t"
    using t paired_initialise [OF s0] by (rule paired_reaches)
  obtain low high nh where r: "ranking (func_vals t) (num_points t) = Inr (low, high, nh)"
    and best: "return_best t low = Inr (v, s')"
    using nm_step_Returned [OF last] by blast
  have np: "2 \<le> num_points t" "num_points t \<le> length (func_vals t)"
    using ranking_Inr_two [OF r] p by (simp_all add: paired_def)
  have low: "low < num_points t" and least: "\<forall>i<num_points t. func_vals t ! low \<le> func_vals t ! i"
    using ranking_total [OF np] r by auto
  have res: "low < length (simplex t)" "v = simplex t ! low" "s' = swapped_to_front t low"
    using return_best_Inr [OF best] by simp_all
  have p': "paired f s'"
    unfolding res(3) using p low res(1) by (rule paired_swapped)
  have dims: "num_points s' = num_points t" "num_dimensions s' = num_dimensions t"
    by (simp_all add: res(3) swapped_to_front_def)
  have first: "simplex s' ! 0 = v"
    using res(1) by (simp add: res(2,3) swapped_to_front_def swapped_nth)
  have "low < length (func_vals t)"
    using low np(2) by simp
  then have fmin: "func_min s' = func_vals s' ! 0"
    by (simp add: res(3) swapped_to_front_def swapped_nth)
  have minimal: "\<forall>i<num_points t. func_vals s' ! 0 \<le> func_vals s' ! i"
    using swapped_minimal [OF low np(2) least] by (simp add: res(3) swapped_to_front_def)
  have "0 < num_points s'"
    using np(1) dims by simp
  then have at0: "func_vals s' ! 0 = f (take (num_dimensions s') v)"
    using p' first by (simp add: paired_def)
  have "f (take (num_dimensions s') v) \<le> f (take (num_dimensions s') (simplex s' ! i))"
    if "i < num_points s'" for i
    using minimal p' that at0 dims by (simp add: paired_def)
  then show ?thesis
    using first fmin at0 by simp
qed

subsection \<open>Facts about the geometric operator and the counter\<close>

text \<open>
  The state after one call of \<open>reflect\<close> with the trial vertex \<open>ev\<close>: the trial vertex
  replaces the worst one only when its value is strictly below the worst value.
\<close>

definition after_trial :: "(vec \<Rightarrow> real) \<Rightarrow> nat \<Rightarrow> vec \<Rightarrow> nelder_mead \<Rightarrow> nelder_mead" where
  "after_trial f w ev s = (if f ev < func_vals s ! w then replace_worst s w ev (f ev) else s)"

lemma reflect_after_trial:
  assumes "reflect f w factor s = Inr (v, s')"
  shows "\<exists>ev. trial_point s w factor = Inr ev \<and> v = f ev \<and> s' = after_trial f w ev s
    \<and> w < length (func_vals s)"
  using reflect_Inr [OF assms] by (auto simp: after_trial_def)

lemma after_trial_frame [simp]:
  "num_evals (after_trial f w ev s) = num_evals s"
  "num_dimensions (after_trial f w ev s) = num_dimensions s"
  "num_points (after_trial f w ev s) = num_points s"
  "func_min (after_trial f w ev s) = func_min s"
  "length (func_vals (after_trial f w ev s)) = length (func_vals s)"
  by (simp_all add: after_trial_def replace_worst_def)

lemma after_trial_other_value [simp]:
  "i \<noteq> w \<Longrightarrow> func_vals (after_trial f w ev s) ! i = func_vals s ! i"
  by (simp add: after_trial_def replace_worst_def)

lemma trial_point_num_evals [simp]:
  "trial_point (s\<lparr>num_evals := n\<rparr>) w factor = trial_point s w factor"
proof -
  have "trial_coordinate (s\<lparr>num_evals := n\<rparr>) w a b = trial_coordinate s w a b" for a b
    by (intro ext) (simp add: trial_coordinate_def)
  then show ?thesis
    by (simp add: trial_point_def)
qed

text \<open>The branches of lines 113-146, in terms of the trial vertices.\<close>

lemma geometric_operator_cases:
  assumes run: "geometric_operator f low high nh s = Inr s'"
    and ne: "low \<noteq> high" "nh \<noteq> high"
  shows "\<exists>ev. trial_point s high (- 1) = Inr ev
    \<and> (f ev \<le> func_vals s ! low \<longrightarrow>
          (\<exists>ev2. trial_point (after_trial f high ev (s\<lparr>num_evals := num_evals s + 2\<rparr>)) high 2 = Inr ev2
             \<and> s' = after_trial f high ev2 (after_trial f high ev (s\<lparr>num_evals := num_evals s + 2\<rparr>))))
    \<and> (func_vals s ! low < f ev \<and> f ev < func_vals s ! nh \<longrightarrow>
          s' = (after_trial f high ev (s\<lparr>num_evals := num_evals s + 2\<rparr>))\<lparr>num_evals := num_evals s + 1\<rparr>)
    \<and> (func_vals s ! low < f ev \<and> func_vals s ! nh \<le> f ev \<longrightarrow>
          (\<exists>ev3. trial_point (after_trial f high ev (s\<lparr>num_evals := num_evals s + 2\<rparr>)) high (1 / 2) = Inr ev3
             \<and> (f ev3 < func_vals s ! nh \<longrightarrow>
                   s' = after_trial f high ev3 (after_trial f high ev (s\<lparr>num_evals := num_evals s + 2\<rparr>)))
             \<and> (func_vals s ! nh \<le> f ev3 \<longrightarrow>
                   shrink f low (after_trial f high ev3
                     (after_trial f high ev (s\<lparr>num_evals := num_evals s + 2\<rparr>))) = Inr s')))"
proof -
  let ?s0 = "s\<lparr>num_evals := num_evals s + 2\<rparr>"
  from run obtain r s1 where refl: "reflect f high (- 1) ?s0 = Inr (r, s1)"
    and rest: "and_then (read_at (func_vals s1) low) (\<lambda>v_low.
      if r \<le> v_low then
        and_then (reflect f high 2 s1) (\<lambda>(reflection', s2). Inr s2)
      else
        and_then (read_at (func_vals s1) nh) (\<lambda>func_next_high.
        if r \<ge> func_next_high then
          and_then (reflect f high 0.5 s1) (\<lambda>(reflection', s2).
          if reflection' \<ge> func_next_high then shrink f low s2
          else Inr s2)
        else Inr (s1\<lparr>num_evals := num_evals s1 - 1\<rparr>))) = Inr s'"
    by (auto simp: geometric_operator_def Let_def and_then_eq_Inr)
  obtain ev where ev: "trial_point s high (- 1) = Inr ev" and r: "r = f ev"
    and s1: "s1 = after_trial f high ev ?s0"
    using reflect_after_trial [OF refl] by auto
  have low: "func_vals s1 ! low = func_vals s ! low" and nh: "func_vals s1 ! nh = func_vals s ! nh"
    using ne by (simp_all add: s1)
  from rest have lowr: "low < length (func_vals s1)"
    by (auto simp: and_then_eq_Inr read_at_eq_Inr)
  have expand: "\<exists>ev2. trial_point s1 high 2 = Inr ev2 \<and> s' = after_trial f high ev2 s1"
    if "f ev \<le> func_vals s ! low"
  proof -
    from rest that lowr obtain e s2 where "reflect f high 2 s1 = Inr (e, s2)" and "s' = s2"
      by (auto simp: read_at_def low r and_then_eq_Inr)
    then show ?thesis
      using reflect_after_trial by blast
  qed
  have evals1: "num_evals s1 - 1 = num_evals s + 1"
    by (simp add: s1)
  have accept: "s' = s1\<lparr>num_evals := num_evals s + 1\<rparr>"
    if "func_vals s ! low < f ev" "f ev < func_vals s ! nh"
  proof -
    have "s' = s1\<lparr>num_evals := num_evals s1 - 1\<rparr>"
      using rest that lowr
      by (auto simp: read_at_def low nh r and_then_eq_Inr split: if_splits)
    then show ?thesis
      by (simp only: evals1)
  qed
  have contract: "\<exists>ev3. trial_point s1 high (1 / 2) = Inr ev3
      \<and> (f ev3 < func_vals s ! nh \<longrightarrow> s' = after_trial f high ev3 s1)
      \<and> (func_vals s ! nh \<le> f ev3 \<longrightarrow> shrink f low (after_trial f high ev3 s1) = Inr s')"
    if "func_vals s ! low < f ev" "func_vals s ! nh \<le> f ev"
  proof -
    from rest that lowr obtain c s2 where c: "reflect f high (1 / 2) s1 = Inr (c, s2)"
      and fin: "if func_vals s ! nh \<le> c then shrink f low s2 = Inr s' else s' = s2"
      by (auto simp: read_at_def low nh r and_then_eq_Inr split: if_splits)
    obtain ev3 where "trial_point s1 high (1 / 2) = Inr ev3" "c = f ev3"
      "s2 = after_trial f high ev3 s1"
      using reflect_after_trial [OF c] by auto
    then show ?thesis
      using fin by (auto split: if_splits)
  qed
  show ?thesis
    using ev expand accept contract unfolding s1 by blast
qed

text \<open>
  The invariant of the cached sums: each is the sum of one coordinate over all vertices.
\<close>

definition sums_cached :: "nelder_mead \<Rightarrow> bool" where
  "sums_cached s \<longleftrightarrow>
     (\<forall>j<num_dimensions s. simplex_sums s ! j = (\<Sum>i<num_points s. simplex s ! i ! j))"

text \<open>
  What a shrink around the row \<open>low\<close> does to a state: every other vertex has moved
  halfway toward that row and carries its new objective value, the row and its value
  stay, the cached sums are the column sums of the new simplex, and the counter has grown
  by \<open>num_dimensions_\<close>.
\<close>

definition shrunk_toward :: "(vec \<Rightarrow> real) \<Rightarrow> nat \<Rightarrow> nelder_mead \<Rightarrow> nelder_mead \<Rightarrow> bool" where
  "shrunk_toward f low s s' \<longleftrightarrow>
     (\<forall>i<num_points s. i \<noteq> low \<longrightarrow>
        (\<forall>j<num_dimensions s. simplex s' ! i ! j = (simplex s ! i ! j + simplex s ! low ! j) / 2)
        \<and> func_vals s' ! i = f (take (num_dimensions s) (simplex s' ! i)))
     \<and> simplex s' ! low = simplex s ! low \<and> func_vals s' ! low = func_vals s ! low
     \<and> sums_cached s'
     \<and> num_evals s' = num_evals s + num_dimensions s
     \<and> num_dimensions s' = num_dimensions s \<and> num_points s' = num_points s"

lemma shrink_effect:
  assumes "shrink f low s = Inr s'" and "length (simplex_sums s) = num_dimensions s"
  shows "shrunk_toward f low s s'"
proof -
  note r = shrink_Inr [OF assms(1)]
  have row: "simplex s' ! i = shrunk_row s low i" and val: "func_vals s' ! i = f (shrunk_point s low i)"
    if "i < num_points s" "i \<noteq> low" for i
    using r(3,5) that by simp_all
  have pt: "shrunk_point s low i = take (num_dimensions s) (shrunk_row s low i)" for i
    by (simp add: shrunk_point_def shrunk_row_def assms(2))
  have coord: "shrunk_row s low i ! j = (simplex s ! i ! j + simplex s ! low ! j) / 2"
    if "j < num_dimensions s" for i j
    using that by (simp add: shrunk_row_def nth_append)
  have moved: "(\<forall>j<num_dimensions s. simplex s' ! i ! j = (simplex s ! i ! j + simplex s ! low ! j) / 2)
      \<and> func_vals s' ! i = f (take (num_dimensions s) (simplex s' ! i))"
    if "i < num_points s" "i \<noteq> low" for i
    using row [OF that] val [OF that] pt coord by simp
  have best: "simplex s' ! low = simplex s ! low" "func_vals s' ! low = func_vals s ! low"
    using r(3,5) by simp_all
  have cached: "sums_cached s'"
    using r(1,7) by (simp add: sums_cached_def)
  show ?thesis
    unfolding shrunk_toward_def using moved best cached r(1) by simp
qed

lemma after_trial_sums_length:
  assumes "trial_point s w factor = Inr ev" and "length (simplex_sums s) = num_dimensions s"
  shows "length (simplex_sums (after_trial f w ev s)) = num_dimensions s"
  using trial_point_Inr(1) [OF assms(1)] assms(2)
  by (simp add: after_trial_def replace_worst_def)

lemma geometric_operator_charges:
  assumes "geometric_operator f low high nh s = Inr s'" and "low \<noteq> high" and "nh \<noteq> high"
  shows "\<exists>ev. trial_point s high (- 1) = Inr ev
    \<and> (f ev \<le> func_vals s ! low \<longrightarrow> num_evals s' = num_evals s + 2)
    \<and> (func_vals s ! low < f ev \<and> f ev < func_vals s ! nh \<longrightarrow> num_evals s' = num_evals s + 1)
    \<and> (func_vals s ! low < f ev \<and> func_vals s ! nh \<le> f ev \<longrightarrow>
          (\<exists>ev3. trial_point (after_trial f high ev (s\<lparr>num_evals := num_evals s + 2\<rparr>)) high (1 / 2)
                    = Inr ev3
             \<and> (f ev3 < func_vals s ! nh \<longrightarrow> num_evals s' = num_evals s + 2)
             \<and> (func_vals s ! nh \<le> f ev3 \<longrightarrow>
                   num_evals s' = num_evals s + 2 + num_dimensions s)))"
proof -
  let ?s0 = "s\<lparr>num_evals := num_evals s + 2\<rparr>"
  obtain ev where ev: "trial_point s high (- 1) = Inr ev"
    and expand: "f ev \<le> func_vals s ! low \<longrightarrow>
          (\<exists>ev2. trial_point (after_trial f high ev ?s0) high 2 = Inr ev2
             \<and> s' = after_trial f high ev2 (after_trial f high ev ?s0))"
    and accept: "func_vals s ! low < f ev \<and> f ev < func_vals s ! nh \<longrightarrow>
          s' = (after_trial f high ev ?s0)\<lparr>num_evals := num_evals s + 1\<rparr>"
    and contract: "func_vals s ! low < f ev \<and> func_vals s ! nh \<le> f ev \<longrightarrow>
          (\<exists>ev3. trial_point (after_trial f high ev ?s0) high (1 / 2) = Inr ev3
             \<and> (f ev3 < func_vals s ! nh \<longrightarrow>
                   s' = after_trial f high ev3 (after_trial f high ev ?s0))
             \<and> (func_vals s ! nh \<le> f ev3 \<longrightarrow>
                   shrink f low (after_trial f high ev3 (after_trial f high ev ?s0)) = Inr s'))"
    using geometric_operator_cases [OF assms] by (elim exE conjE) (rule that)
  have a: "num_evals s' = num_evals s + 2" if "f ev \<le> func_vals s ! low"
    using expand that by auto
  have b: "num_evals s' = num_evals s + 1" if "func_vals s ! low < f ev" "f ev < func_vals s ! nh"
    using accept that by auto
  have c: "\<exists>ev3. trial_point (after_trial f high ev ?s0) high (1 / 2) = Inr ev3
         \<and> (f ev3 < func_vals s ! nh \<longrightarrow> num_evals s' = num_evals s + 2)
         \<and> (func_vals s ! nh \<le> f ev3 \<longrightarrow> num_evals s' = num_evals s + 2 + num_dimensions s)"
    if "func_vals s ! low < f ev" "func_vals s ! nh \<le> f ev"
  proof -
    from contract that obtain ev3
      where ev3: "trial_point (after_trial f high ev ?s0) high (1 / 2) = Inr ev3"
        and kept: "f ev3 < func_vals s ! nh \<longrightarrow>
            s' = after_trial f high ev3 (after_trial f high ev ?s0)"
        and shrunk: "func_vals s ! nh \<le> f ev3 \<longrightarrow>
            shrink f low (after_trial f high ev3 (after_trial f high ev ?s0)) = Inr s'"
      by blast
    have "num_evals s' = num_evals s + 2" if "f ev3 < func_vals s ! nh"
      using kept that by auto
    moreover have "num_evals s' = num_evals s + 2 + num_dimensions s"
      if "func_vals s ! nh \<le> f ev3"
      using shrunk that shrink_frame by fastforce
    ultimately show ?thesis
      using ev3 by blast
  qed
  show ?thesis
    using ev a b c by blast
qed

text \<open>
  A pass starts only while the counter is below \<open>MAX_ITERS_\<close> and adds at most
  \<open>num_dimensions_ + 2\<close>.
\<close>

lemma reaches_budget:
  assumes "nm_reaches cfg f s t" and "num_evals s \<le> MAX_ITERS cfg + num_dimensions s + 1"
  shows "num_evals t \<le> MAX_ITERS cfg + num_dimensions t + 1 \<and> num_dimensions t = num_dimensions s"
  using assms
proof (induction rule: nm_reaches.induct)
  case (here s)
  then show ?case by simp
next
  case (pass s s' s'')
  obtain low high nh where "num_evals s < MAX_ITERS cfg"
    and "geometric_operator f low high nh s = Inr s'"
    using nm_step_Continue [OF pass.hyps(1)] by blast
  then have "num_evals s' \<le> MAX_ITERS cfg + num_dimensions s' + 1"
    and "num_dimensions s' = num_dimensions s"
    using geometric_operator_frame [of f low high nh s s'] by auto
  then show ?case
    using pass.IH by simp
qed

lemma minimize_budget:
  assumes "minimize cfg f initial_simplex = Inr (v, s')"
  shows "num_evals s' \<le> MAX_ITERS cfg + num_dimensions s' + 1"
proof -
  from assms obtain s0 where s0: "initialise f initial_simplex = Inr s0"
    and loop: "nm_loop cfg f s0 = Inr (v, s')"
    by (auto simp: minimize_def and_then_eq_Inr)
  obtain t where t: "nm_reaches cfg f s0 t" and last: "nm_step cfg f t = Inr (Returned v s')"
    using nm_loop_Inr [OF loop] by blast
  have "num_evals s0 = 0"
    using initialise_Inr(1) [OF s0] by simp
  then have bound: "num_evals t \<le> MAX_ITERS cfg + num_dimensions t + 1"
    using reaches_budget [OF t] by simp
  obtain low where "return_best t low = Inr (v, s')"
    using nm_step_Returned [OF last] by blast
  then have "s' = swapped_to_front t low"
    using return_best_Inr by blast
  then show ?thesis
    using bound by (simp add: swapped_to_front_def)
qed

lemma minimize_throws:
  assumes "minimize cfg f initial_simplex = Inl MaxIterationsExceeded"
  shows "\<exists>s0 t. initialise f initial_simplex = Inr s0 \<and> nm_reaches cfg f s0 t
    \<and> nm_step cfg f t = Inl MaxIterationsExceeded
    \<and> MAX_ITERS cfg \<le> num_evals t \<and> num_evals t \<le> MAX_ITERS cfg + num_dimensions t + 1"
proof -
  have "initialise f initial_simplex \<noteq> Inl MaxIterationsExceeded"
    using oor_initialise [of f initial_simplex] by (auto dest: oor_InlD)
  with assms obtain s0 where s0: "initialise f initial_simplex = Inr s0"
    and loop: "nm_loop cfg f s0 = Inl MaxIterationsExceeded"
    by (auto simp: minimize_def and_then_eq_Inl)
  obtain t where t: "nm_reaches cfg f s0 t" and last: "nm_step cfg f t = Inl MaxIterationsExceeded"
    using nm_loop_Inl [OF loop] by blast
  have "num_evals s0 = 0"
    using initialise_Inr(1) [OF s0] by simp
  then have "num_evals t \<le> MAX_ITERS cfg + num_dimensions t + 1"
    using reaches_budget [OF t] by simp
  moreover have "MAX_ITERS cfg \<le> num_evals t"
    using nm_step_MaxIterationsExceeded [OF last] by blast
  ultimately show ?thesis
    using s0 t last by blast
qed

subsection \<open>States whose accesses are in range\<close>

text \<open>
  The vectors of the state are long enough for \<open>num_points_\<close> vertices of
  \<open>num_dimensions_\<close> coordinates. On such a state no access of the loop body is out of
  range, and the geometric step hands such a state on.
\<close>

definition in_range :: "nelder_mead \<Rightarrow> bool" where
  "in_range s \<longleftrightarrow>
     num_points s \<le> length (simplex s)
     \<and> (\<forall>i<num_points s. num_dimensions s \<le> length (simplex s ! i))
     \<and> num_points s \<le> length (func_vals s)
     \<and> num_dimensions s \<le> length (simplex_sums s)"

lemma in_range_num_evals [simp]: "in_range (s\<lparr>num_evals := n\<rparr>) = in_range s"
  by (simp add: in_range_def)

lemma reflect_in_range:
  assumes "in_range s" and "w < num_points s"
  shows "\<exists>ev. trial_point s w factor = Inr ev
    \<and> reflect f w factor s = Inr (f ev, after_trial f w ev s)"
proof -
  have "w < length (simplex s)" "num_dimensions s \<le> length (simplex s ! w)"
    "num_dimensions s \<le> length (simplex_sums s)" "w < length (func_vals s)"
    using assms by (simp_all add: in_range_def)
  then show ?thesis
    unfolding after_trial_def by (rule reflect_total)
qed

lemma in_range_after_trial:
  assumes "in_range s" and "trial_point s w factor = Inr ev"
  shows "in_range (after_trial f w ev s)"
proof -
  have n: "length ev = num_dimensions s"
    using assms(2) by (rule trial_point_Inr)
  have row: "num_dimensions s \<le> length ((simplex s)[w := ev @ drop (length ev) (simplex s ! w)] ! i)"
    if "i < num_points s" for i
    using assms(1) that n by (cases "i = w") (simp_all add: in_range_def)
  show ?thesis
    using assms(1) row n by (simp add: after_trial_def replace_worst_def in_range_def)
qed

lemma shrink_row_completes:
  assumes "i < length sx" and "low < length sx" and "n \<le> length (sx ! i)"
    and "n \<le> length (sx ! low)" and "n \<le> length ds"
  shows "\<exists>sx' ds'. for_loop n (shrink_coordinate low i) (sx, ds) = Inr (sx', ds')"
proof -
  let ?I = "\<lambda>(k :: nat) (t :: matrix \<times> vec). length (fst t) = length sx
      \<and> (\<forall>r. length (fst t ! r) = length (sx ! r)) \<and> length (snd t) = length ds"
  have "\<exists>t. for_loop n (shrink_coordinate low i) (sx, ds) = Inr t \<and> ?I n t"
  proof (rule for_loop_completes [where I = ?I])
    show "?I 0 (sx, ds)" by simp
  next
    fix k t
    assume k: "k < n" and inv: "?I k t"
    obtain sx1 ds1 where t: "t = (sx1, ds1)"
      by (cases t) auto
    have len: "length sx1 = length sx" "\<forall>r. length (sx1 ! r) = length (sx ! r)"
      "length ds1 = length ds"
      using inv by (simp_all add: t)
    have rd: "i < length sx1" "low < length sx1" "k < length (sx1 ! i)" "k < length (sx1 ! low)"
      "k < length ds1"
      using assms k len by simp_all
    have "shrink_coordinate low i k t
        = Inr (sx1[i := (sx1 ! i)[k := (sx1 ! i ! k + sx1 ! low ! k) / 2]],
               ds1[k := (sx1 ! i ! k + sx1 ! low ! k) / 2])"
      using rd by (simp add: shrink_coordinate_def t read_at2_def read_at_def write_at_def
          write_at2_def)
    moreover have "?I (Suc k) (sx1[i := (sx1 ! i)[k := (sx1 ! i ! k + sx1 ! low ! k) / 2]],
               ds1[k := (sx1 ! i ! k + sx1 ! low ! k) / 2])"
      using len rd(1) by (simp add: nth_list_update)
    ultimately show "\<exists>t'. shrink_coordinate low i k t = Inr t' \<and> ?I (Suc k) t'"
      by simp
  qed
  then show ?thesis by auto
qed


lemma shrink_vertex_completes:
  assumes "in_range t" and "k < num_points t" and "low < num_points t"
  shows "\<exists>t'. shrink_vertex f low k t = Inr t' \<and> in_range t'
    \<and> num_points t' = num_points t \<and> num_dimensions t' = num_dimensions t"
proof (cases "k = low")
  case True
  then show ?thesis
    using assms(1) by (simp add: shrink_vertex_def)
next
  case False
  let ?nd = "num_dimensions t"
  have b: "k < length (simplex t)" "low < length (simplex t)" "?nd \<le> length (simplex t ! k)"
    "?nd \<le> length (simplex t ! low)" "?nd \<le> length (simplex_sums t)"
    "k < length (func_vals t)"
    using assms by (simp_all add: in_range_def)
  obtain sx' ds' where loop:
    "for_loop ?nd (shrink_coordinate low k) (simplex t, simplex_sums t) = Inr (sx', ds')"
    using shrink_row_completes [OF b(1-5)] by blast
  note res = shrink_row_result(1,2) [OF loop False]
  let ?t' = "t\<lparr>simplex := sx', func_vals := (func_vals t)[k := f ds'], simplex_sums := ds'\<rparr>"
  have step: "shrink_vertex f low k t = Inr ?t'"
    using False loop b(6) by (simp add: shrink_vertex_def write_at_def)
  have rows: "?nd \<le> length (sx' ! i)" if "i < num_points t" for i
    using assms(1) that b(1,3) by (cases "i = k") (simp_all add: res(1) in_range_def)
  have "length sx' = length (simplex t)" "length ds' = length (simplex_sums t)"
    using b(5) by (simp_all add: res)
  then have "in_range ?t'"
    using assms(1) rows by (simp add: in_range_def)
  then show ?thesis
    using step by simp
qed

lemma shrink_completes:
  assumes "in_range s" and "low < num_points s"
  shows "\<exists>s'. shrink f low s = Inr s' \<and> in_range s'"
proof -
  let ?J = "\<lambda>(k :: nat) t. in_range t \<and> num_points t = num_points s
      \<and> num_dimensions t = num_dimensions s"
  have "\<exists>s1. for_loop (num_points s) (shrink_vertex f low) s = Inr s1 \<and> ?J (num_points s) s1"
  proof (rule for_loop_completes [where I = ?J])
    show "?J 0 s"
      using assms(1) by simp
  next
    fix k t
    assume "k < num_points s" and "?J k t"
    then show "\<exists>t'. shrink_vertex f low k t = Inr t' \<and> ?J (Suc k) t'"
      using shrink_vertex_completes [of t k low f] assms(2) by auto
  qed
  then obtain s1 where loop: "for_loop (num_points s) (shrink_vertex f low) s = Inr s1"
    and s1: "in_range s1" "num_points s1 = num_points s" "num_dimensions s1 = num_dimensions s"
    by blast
  obtain ds where ds: "dimension_sums (num_dimensions s1) (num_points s1) (simplex s1) = Inr ds"
    using dimension_sums_completes [of "num_points s1" "simplex s1" "num_dimensions s1"] s1(1)
    by (auto simp: in_range_def)
  have "length ds = num_dimensions s1"
    using ds by (rule dimension_sums_Inr)
  then have "in_range (s1\<lparr>num_evals := num_evals s1 + num_dimensions s1, simplex_sums := ds\<rparr>)"
    using s1(1) by (simp add: in_range_def)
  then show ?thesis
    using loop ds by (simp add: shrink_def Let_def)
qed

lemma geometric_operator_completes:
  assumes "in_range s" and "low < num_points s" and "high < num_points s" and "nh < num_points s"
  shows "\<exists>s'. geometric_operator f low high nh s = Inr s' \<and> in_range s'
    \<and> num_points s' = num_points s"
proof -
  let ?s0 = "s\<lparr>num_evals := num_evals s + 2\<rparr>"
  have r0: "in_range ?s0" "high < num_points ?s0"
    using assms by simp_all
  obtain ev where ev: "trial_point ?s0 high (- 1) = Inr ev"
    and refl: "reflect f high (- 1) ?s0 = Inr (f ev, after_trial f high ev ?s0)"
    using reflect_in_range [OF r0] by blast
  let ?s1 = "after_trial f high ev ?s0"
  have r1: "in_range ?s1" "high < num_points ?s1"
    using in_range_after_trial [OF r0(1) ev] assms(3) by simp_all
  have len1: "low < length (func_vals ?s1)" "nh < length (func_vals ?s1)"
    using assms by (simp_all add: in_range_def)
  obtain ev2 where ev2: "trial_point ?s1 high 2 = Inr ev2"
    and expand: "reflect f high 2 ?s1 = Inr (f ev2, after_trial f high ev2 ?s1)"
    using reflect_in_range [OF r1] by blast
  obtain ev3 where ev3: "trial_point ?s1 high (1 / 2) = Inr ev3"
    and contract: "reflect f high (1 / 2) ?s1 = Inr (f ev3, after_trial f high ev3 ?s1)"
    using reflect_in_range [OF r1] by blast
  let ?s2 = "after_trial f high ev3 ?s1"
  have r2: "in_range ?s2" "low < num_points ?s2"
    using in_range_after_trial [OF r1(1) ev3] assms(2) by simp_all
  obtain s3 where s3: "shrink f low ?s2 = Inr s3" "in_range s3"
    using shrink_completes [OF r2] by blast
  have np3: "num_points s3 = num_points s"
    using shrink_frame [OF s3(1)] by simp
  have accepted: "in_range (?s1\<lparr>num_evals := num_evals ?s1 - 1\<rparr>)"
    using r1(1) by simp
  have e2: "in_range (after_trial f high ev2 ?s1)"
    using in_range_after_trial [OF r1(1) ev2] .
  show ?thesis
    unfolding geometric_operator_def Let_def
    using refl expand contract s3 np3 len1 accepted e2 r2(1)
    by (simp add: read_at_def)
qed

lemma nm_step_safe:
  assumes "in_range s" and "2 \<le> num_points s"
  shows "nm_step cfg f s \<noteq> Inl OutOfRange"
    and "nm_step cfg f s = Inr (Continue s') \<Longrightarrow> in_range s' \<and> num_points s' = num_points s"
proof -
  have np: "num_points s \<le> length (func_vals s)"
    using assms(1) by (simp add: in_range_def)
  obtain low high nh where r: "ranking (func_vals s) (num_points s) = Inr (low, high, nh)"
    and b: "low < num_points s" "high < num_points s" "nh < num_points s"
    using ranking_total [OF assms(2) np] by blast
  have len: "low < length (func_vals s)" "high < length (func_vals s)" "low < length (simplex s)"
    using b assms(1) by (simp_all add: in_range_def)
  obtain tol where tol: "tolerance cfg (func_vals s) low high = Inr tol"
    using len by (simp add: tolerance_Inr)
  obtain g where g: "geometric_operator f low high nh s = Inr g" "in_range g"
    "num_points g = num_points s"
    using geometric_operator_completes [OF assms(1) b] by blast
  show "nm_step cfg f s \<noteq> Inl OutOfRange"
    using r tol g(1) len by (simp add: nm_step_def return_best_eq)
  show "in_range s' \<and> num_points s' = num_points s" if "nm_step cfg f s = Inr (Continue s')"
    using that r tol g len by (auto simp: nm_step_def return_best_eq split: if_splits)
qed

lemma nm_loop_safe:
  assumes "in_range s" and "2 \<le> num_points s"
  shows "nm_loop cfg f s \<noteq> Inl OutOfRange"
  using assms
proof (induction cfg f s rule: nm_loop.induct)
  case (1 cfg f s)
  show ?case
  proof (cases "nm_step cfg f s")
    case (Inl e)
    then show ?thesis
      using nm_step_safe(1) [OF "1.prems", of cfg f] by (simp add: nm_loop.simps)
  next
    case (Inr out)
    show ?thesis
    proof (cases out)
      case (Returned v t)
      then show ?thesis
        using Inr by (simp add: nm_loop.simps)
    next
      case (Continue t)
      then have "in_range t \<and> num_points t = num_points s"
        using nm_step_safe(2) [OF "1.prems"] Inr by blast
      then have "nm_loop cfg f t \<noteq> Inl OutOfRange"
        using "1.IH" Inr Continue "1.prems"(2) by simp
      then show ?thesis
        using Inr Continue by (simp add: nm_loop.simps)
    qed
  qed
qed

text \<open>
  From a state in range with at least two vertices the loop either returns or throws:
  it does not leave its vectors.
\<close>

lemma nm_loop_outcome:
  assumes "in_range s" and "2 \<le> num_points s"
  shows "(\<exists>v t. nm_loop cfg f s = Inr (v, t)) \<or> nm_loop cfg f s = Inl MaxIterationsExceeded"
proof (cases "nm_loop cfg f s")
  case (Inl e)
  then have "e = OutOfRange \<or> e = MaxIterationsExceeded"
    using nm_loop_Inl nm_step_errors by blast
  then show ?thesis
    using Inl nm_loop_safe [OF assms, of cfg f] by auto
next
  case (Inr r)
  then show ?thesis
    by (cases r) simp
qed

text \<open>The initialisation completes on a simplex with enough rows and long enough rows.\<close>

lemma load_row_completes:
  assumes "i < length sx" and "n \<le> length (sx ! i)" and "n \<le> length ep"
  shows "\<exists>ep'. for_loop n (load_point sx i) ep = Inr ep' \<and> length ep' = length ep"
  using assms
  by (intro for_loop_completes [where I = "\<lambda>_ t. length t = length ep"])
     (auto simp: load_point_def read_at2_def read_at_def write_at_def)

lemma initialise_completes:
  assumes "initial_simplex \<noteq> []"
    and "length (initial_simplex ! 0) \<le> length initial_simplex"
    and "\<forall>i<length (initial_simplex ! 0). length initial_simplex \<le> length (initial_simplex ! i)"
  shows "\<exists>s. initialise f initial_simplex = Inr s"
proof -
  let ?nd = "length initial_simplex" and ?np = "length (initial_simplex ! 0)"
  let ?I = "\<lambda>(k :: nat) (t :: vec \<times> vec). length (fst t) = ?nd \<and> length (snd t) = ?np"
  have "\<exists>t. for_loop ?np (evaluate_vertex f ?nd initial_simplex) (replicate ?nd 0, replicate ?np 0)
      = Inr t \<and> ?I ?np t"
  proof (rule for_loop_completes [where I = ?I])
    show "?I 0 (replicate ?nd 0, replicate ?np 0)" by simp
  next
    fix k t
    assume k: "k < ?np" and inv: "?I k t"
    obtain ep vals where t: "t = (ep, vals)"
      by (cases t) auto
    have "k < length initial_simplex" "?nd \<le> length (initial_simplex ! k)" "?nd \<le> length ep"
      using k assms(2,3) inv by (simp_all add: t)
    then obtain ep' where "for_loop ?nd (load_point initial_simplex k) ep = Inr ep'"
      and "length ep' = length ep"
      using load_row_completes by blast
    then show "\<exists>t'. evaluate_vertex f ?nd initial_simplex k t = Inr t' \<and> ?I (Suc k) t'"
      using k inv by (simp add: evaluate_vertex_def t write_at_def)
  qed
  then obtain ep vals where loop: "for_loop ?np (evaluate_vertex f ?nd initial_simplex)
      (replicate ?nd 0, replicate ?np 0) = Inr (ep, vals)"
    by auto
  obtain ds where "dimension_sums ?nd ?np initial_simplex = Inr ds"
    using dimension_sums_completes [OF assms(2,3)] by blast
  then show ?thesis
    using assms(1) loop by (simp add: initialise_def Let_def read_at_def)
qed

lemma initialise_in_range:
  assumes "initialise f initial_simplex = Inr s"
  shows "in_range s"
proof -
  note r = initialise_Inr [OF assms]
  have "num_points s \<le> length (simplex s)"
  proof (cases "num_points s")
    case 0
    then show ?thesis by simp
  next
    case (Suc n)
    then have "n < length (simplex s)"
      using r(3) by simp
    then show ?thesis
      using Suc by simp
  qed
  then show ?thesis
    using r by (simp add: in_range_def)
qed

subsection \<open>The cached sums along a run\<close>

text \<open>A call of \<open>reflect\<close> on a vertex of the simplex keeps the cached sums consistent.\<close>

lemma sums_cached_num_evals [simp]: "sums_cached (s\<lparr>num_evals := n\<rparr>) = sums_cached s"
  by (simp add: sums_cached_def)

lemma sums_cached_after_trial:
  assumes "in_range s" and "sums_cached s" and "w < num_points s"
    and "trial_point s w factor = Inr ev"
  shows "sums_cached (after_trial f w ev s)"
proof (cases "f ev < func_vals s ! w")
  case False
  then show ?thesis
    using assms(2) by (simp add: after_trial_def)
next
  case True
  let ?s' = "replace_worst s w ev (f ev)"
  have n: "length ev = num_dimensions s"
    using assms(4) by (rule trial_point_Inr)
  have w: "w < length (simplex s)"
    using assms(1,3) by (simp add: in_range_def)
  have row: "simplex ?s' ! i ! j = (if i = w then ev ! j else simplex s ! i ! j)"
    if "j < num_dimensions s" for i j
    using that w n by (simp add: replace_worst_def nth_list_update nth_append)
  have cached: "simplex_sums ?s' ! j = (\<Sum>i<num_points s. simplex ?s' ! i ! j)"
    if j: "j < num_dimensions s" for j
  proof -
    have fin: "finite {..<num_points s}" and mem: "w \<in> {..<num_points s}"
      using assms(3) by simp_all
    have old: "(\<Sum>i<num_points s. simplex s ! i ! j)
        = simplex s ! w ! j + (\<Sum>i \<in> {..<num_points s} - {w}. simplex s ! i ! j)"
      using fin mem by (rule sum.remove)
    have "(\<Sum>i<num_points s. simplex ?s' ! i ! j)
        = simplex ?s' ! w ! j + (\<Sum>i \<in> {..<num_points s} - {w}. simplex ?s' ! i ! j)"
      using fin mem by (rule sum.remove)
    also have "(\<Sum>i \<in> {..<num_points s} - {w}. simplex ?s' ! i ! j)
        = (\<Sum>i \<in> {..<num_points s} - {w}. simplex s ! i ! j)"
      by (rule sum.cong) (simp_all add: row [OF j])
    finally have new: "(\<Sum>i<num_points s. simplex ?s' ! i ! j)
        = ev ! j + (\<Sum>i \<in> {..<num_points s} - {w}. simplex s ! i ! j)"
      by (simp add: row [OF j])
    have "simplex_sums ?s' ! j = simplex_sums s ! j + (ev ! j - simplex s ! w ! j)"
      using j n by (simp add: replace_worst_def nth_append)
    also have "simplex_sums s ! j = (\<Sum>i<num_points s. simplex s ! i ! j)"
      using assms(2) j by (simp add: sums_cached_def)
    finally show ?thesis
      using old new by simp
  qed
  have "sums_cached ?s'"
    unfolding sums_cached_def using cached by (simp add: replace_worst_def)
  then show ?thesis
    using True by (simp add: after_trial_def)
qed

lemma reflect_cached:
  assumes "reflect f w factor s = Inr (v, s')" and "in_range s" and "sums_cached s"
    and "w < num_points s"
  shows "in_range s' \<and> sums_cached s' \<and> num_points s' = num_points s"
proof -
  obtain ev where ev: "trial_point s w factor = Inr ev" and s': "s' = after_trial f w ev s"
    using reflect_after_trial [OF assms(1)] by blast
  show ?thesis
    unfolding s'
    using in_range_after_trial [OF assms(2) ev] sums_cached_after_trial [OF assms(2,3,4) ev]
    by simp
qed

lemma shrink_cached:
  assumes "shrink f low s = Inr s'"
  shows "sums_cached s'"
  using shrink_Inr(1,7) [OF assms] by (simp add: sums_cached_def)

lemma geometric_operator_cached:
  assumes run: "geometric_operator f low high nh s = Inr s'"
    and inv: "in_range s" "sums_cached s" and high: "high < num_points s"
  shows "sums_cached s'"
proof -
  let ?s0 = "s\<lparr>num_evals := num_evals s + 2\<rparr>"
  from run obtain r s1 where refl: "reflect f high (- 1) ?s0 = Inr (r, s1)"
    and rest: "and_then (read_at (func_vals s1) low) (\<lambda>v_low.
      if r \<le> v_low then
        and_then (reflect f high 2 s1) (\<lambda>(reflection', s2). Inr s2)
      else
        and_then (read_at (func_vals s1) nh) (\<lambda>func_next_high.
        if r \<ge> func_next_high then
          and_then (reflect f high 0.5 s1) (\<lambda>(reflection', s2).
          if reflection' \<ge> func_next_high then shrink f low s2
          else Inr s2)
        else Inr (s1\<lparr>num_evals := num_evals s1 - 1\<rparr>))) = Inr s'"
    by (auto simp: geometric_operator_def Let_def and_then_eq_Inr)
  have s1: "in_range s1" "sums_cached s1" "high < num_points s1"
    using reflect_cached [OF refl] inv high by simp_all
  from rest consider (expand) e where "reflect f high 2 s1 = Inr (e, s')"
    | (contract) c where "reflect f high (1 / 2) s1 = Inr (c, s')"
    | (shrink) s2 where "shrink f low s2 = Inr s'"
    | (accept) "s' = s1\<lparr>num_evals := num_evals s1 - 1\<rparr>"
    by (auto simp: and_then_eq_Inr split: if_splits prod.splits)
  then show ?thesis
  proof cases
    case expand
    then show ?thesis
      using reflect_cached s1 by blast
  next
    case contract
    then show ?thesis
      using reflect_cached s1 by blast
  next
    case shrink
    then show ?thesis
      by (rule shrink_cached)
  next
    case accept
    then show ?thesis
      using s1(2) by simp
  qed
qed

text \<open>
  Every state in which the loop begins a pass is in range and has consistent sums, and
  the two sizes are those of the initial state.
\<close>

lemma reaches_cached:
  assumes "nm_reaches cfg f s t" and "paired f s" and "in_range s" and "sums_cached s"
  shows "in_range t \<and> sums_cached t \<and> num_points t = num_points s
    \<and> num_dimensions t = num_dimensions s"
  using assms
proof (induction rule: nm_reaches.induct)
  case (here s)
  then show ?case by simp
next
  case (pass s s' s'')
  obtain low high nh where r: "ranking (func_vals s) (num_points s) = Inr (low, high, nh)"
    and g: "geometric_operator f low high nh s = Inr s'"
    using nm_step_Continue [OF pass.hyps(1)] by blast
  have np: "2 \<le> num_points s" "num_points s \<le> length (func_vals s)"
    using ranking_Inr_two [OF r] pass.prems(1) by (simp_all add: paired_def)
  have high: "high < num_points s"
    using ranking_total [OF np] r by auto
  have p: "paired f s'"
    using pass.prems(1) g by (rule paired_geometric_operator)
  have i: "in_range s'" and same: "num_points s' = num_points s"
    using nm_step_safe(2) [OF pass.prems(2) np(1) pass.hyps(1)] by simp_all
  have c: "sums_cached s'"
    using g pass.prems(2,3) high by (rule geometric_operator_cached)
  have "in_range s'' \<and> sums_cached s'' \<and> num_points s'' = num_points s'
    \<and> num_dimensions s'' = num_dimensions s'"
    using p i c by (rule pass.IH)
  then show ?case
    using same geometric_operator_frame [OF g] by simp
qed

text \<open>
  Lines 47-48 take \<open>num_dimensions_\<close> from the number of rows and \<open>num_points_\<close> from the
  length of row 0; lines 57-60 read \<open>num_dimensions_\<close> entries of row 0. So a state that
  the initialisation produces holds as many vertices as \<open>num_dimensions_\<close>.
\<close>

lemma initialise_cached:
  assumes "initialise f initial_simplex = Inr s"
  shows "sums_cached s" and "0 < num_points s \<Longrightarrow> num_points s = num_dimensions s"
proof -
  note r = initialise_Inr [OF assms]
  show "sums_cached s"
    using r(5) by (simp add: sums_cached_def)
  assume pos: "0 < num_points s"
  then have "num_dimensions s \<le> length (simplex s ! 0)"
    using r(3) by simp
  then have "num_dimensions s \<le> num_points s"
    using r(1) by simp
  moreover have "num_points s \<le> num_dimensions s"
    using initialise_in_range [OF assms] r(1) by (simp add: in_range_def)
  ultimately show "num_points s = num_dimensions s"
    by simp
qed


subsection \<open>The trial vertex and the centroid\<close>

text \<open>The centroid of the vertices other than the worst one.\<close>

definition centroid_of_rest :: "nelder_mead \<Rightarrow> nat \<Rightarrow> nat \<Rightarrow> real" where
  "centroid_of_rest s w j =
     (\<Sum>i \<in> {..<num_points s} - {w}. simplex s ! i ! j) / real (num_points s - 1)"

text \<open>
  With consistent sums, line 163 computes \<open>(1 - f) * ((P - 1) / N) * centroid + f * worst\<close>
  for \<open>P = num_points_\<close> and \<open>N = num_dimensions_\<close>.
\<close>

lemma trial_point_scaled:
  assumes "in_range s" and "sums_cached s" and "w < num_points s"
  shows "\<exists>ev. trial_point s w factor = Inr ev \<and> length ev = num_dimensions s
    \<and> (\<forall>j<num_dimensions s.
          ev ! j = simplex_sums s ! j * (1 - factor) / real (num_dimensions s)
                   - simplex s ! w ! j * ((1 - factor) / real (num_dimensions s) - factor)
        \<and> ev ! j = (1 - factor) * (real (num_points s - 1) / real (num_dimensions s))
                     * centroid_of_rest s w j
                   + factor * simplex s ! w ! j)"
proof -
  have "w < length (simplex s)" "num_dimensions s \<le> length (simplex s ! w)"
    "num_dimensions s \<le> length (simplex_sums s)"
    using assms(1,3) by (simp_all add: in_range_def)
  then obtain ev where ev: "trial_point s w factor = Inr ev"
    using trial_point_completes by blast
  have len: "length ev = num_dimensions s"
    using ev by (rule trial_point_Inr)
  have coord: "ev ! j = simplex_sums s ! j * (1 - factor) / real (num_dimensions s)
      - simplex s ! w ! j * ((1 - factor) / real (num_dimensions s) - factor)"
    if "j < num_dimensions s" for j
    using trial_point_Inr(2) [OF ev] that by (simp add: trial_value_def)
  have scaled: "ev ! j = (1 - factor) * (real (num_points s - 1) / real (num_dimensions s))
                     * centroid_of_rest s w j + factor * simplex s ! w ! j"
    if j: "j < num_dimensions s" for j
  proof -
    have "(\<Sum>i<num_points s. simplex s ! i ! j)
        = simplex s ! w ! j + (\<Sum>i \<in> {..<num_points s} - {w}. simplex s ! i ! j)"
      using assms(3) by (intro sum.remove) simp_all
    then have rest: "(\<Sum>i \<in> {..<num_points s} - {w}. simplex s ! i ! j)
        = simplex_sums s ! j - simplex s ! w ! j"
      using assms(2) j by (simp add: sums_cached_def)
    have c: "real (num_points s - 1) * centroid_of_rest s w j
        = simplex_sums s ! j - simplex s ! w ! j"
    proof (cases "num_points s = 1")
      case True
      then have e: "{..<num_points s} - {w} = {}"
        using assms(3) by auto
      have "simplex_sums s ! j - simplex s ! w ! j = 0"
        using rest unfolding e by simp
      then show ?thesis
        using True by simp
    next
      case False
      then have "real (num_points s - 1) \<noteq> 0"
        using assms(3) by simp
      then show ?thesis
        unfolding centroid_of_rest_def rest by simp
    qed
    have "ev ! j = (1 - factor) * ((simplex_sums s ! j - simplex s ! w ! j) / real (num_dimensions s))
        + factor * simplex s ! w ! j"
      unfolding coord [OF j] by (simp add: algebra_simps diff_divide_distrib)
    then show ?thesis
      unfolding c [symmetric] by simp
  qed
  show ?thesis
    using ev len coord scaled by blast
qed

text \<open>
  On a state of \<open>N + 1\<close> vertices this is the affine combination of the centroid and the
  worst vertex.
\<close>

lemma trial_point_on_simplex:
  assumes "in_range s" and "sums_cached s" and "w < num_points s"
    and "num_points s = num_dimensions s + 1"
  shows "\<exists>ev. trial_point s w factor = Inr ev \<and> length ev = num_dimensions s
    \<and> (\<forall>j<num_dimensions s.
          ev ! j = (1 - factor) * centroid_of_rest s w j + factor * simplex s ! w ! j)"
proof -
  obtain ev where ev: "trial_point s w factor = Inr ev" "length ev = num_dimensions s"
    and co: "\<forall>j<num_dimensions s.
        ev ! j = (1 - factor) * (real (num_points s - 1) / real (num_dimensions s))
                     * centroid_of_rest s w j
                   + factor * simplex s ! w ! j"
    using trial_point_scaled [OF assms(1,2,3)] by blast
  have "ev ! j = (1 - factor) * centroid_of_rest s w j + factor * simplex s ! w ! j"
    if "j < num_dimensions s" for j
    using co that by (simp add: assms(4))
  then show ?thesis
    using ev by blast
qed

text \<open>
  On a state of \<open>N\<close> vertices the centroid is scaled by \<open>(N - 1) / N\<close>, and the trial
  coordinate is the affine combination only for \<open>f = 1\<close> or a centroid coordinate of 0.
\<close>

lemma square_trial:
  assumes "in_range t" and "sums_cached t" and "w < num_points t"
    and "num_points t = num_dimensions t"
  shows "\<exists>ev. trial_point t w factor = Inr ev \<and> length ev = num_dimensions t
    \<and> (\<forall>j<num_dimensions t.
          ev ! j = simplex_sums t ! j * (1 - factor) / real (num_dimensions t)
                   - simplex t ! w ! j * ((1 - factor) / real (num_dimensions t) - factor)
        \<and> ev ! j = (1 - factor) * (real (num_dimensions t - 1) / real (num_dimensions t))
                     * centroid_of_rest t w j
                   + factor * simplex t ! w ! j
        \<and> (ev ! j = (1 - factor) * centroid_of_rest t w j + factor * simplex t ! w ! j
             \<longleftrightarrow> factor = 1 \<or> centroid_of_rest t w j = 0))"
proof -
  obtain ev where ev: "trial_point t w factor = Inr ev" "length ev = num_dimensions t"
    and co: "\<forall>j<num_dimensions t.
          ev ! j = simplex_sums t ! j * (1 - factor) / real (num_dimensions t)
                   - simplex t ! w ! j * ((1 - factor) / real (num_dimensions t) - factor)
        \<and> ev ! j = (1 - factor) * (real (num_points t - 1) / real (num_dimensions t))
                     * centroid_of_rest t w j
                   + factor * simplex t ! w ! j"
    using trial_point_scaled [OF assms(1,2,3)] by blast
  have pos: "0 < num_dimensions t"
    using assms(3,4) by simp
  have ratio: "real (num_dimensions t - 1) / real (num_dimensions t) = 1 - 1 / real (num_dimensions t)"
    using pos by (simp add: field_simps of_nat_diff)
  have "ev ! j = (1 - factor) * centroid_of_rest t w j + factor * simplex t ! w ! j
             \<longleftrightarrow> factor = 1 \<or> centroid_of_rest t w j = 0"
    if "ev ! j = (1 - factor) * (real (num_dimensions t - 1) / real (num_dimensions t))
                     * centroid_of_rest t w j + factor * simplex t ! w ! j" for j
    unfolding that ratio using pos by (auto simp: field_simps)
  then show ?thesis
    using ev co unfolding assms(4) by blast
qed

section \<open>Example states and objectives\<close>

text \<open>The triangle (0,0), (1,0), (0,1) with the objective \<open>x + y\<close>.\<close>

definition triangle :: nelder_mead where
  "triangle = \<lparr>num_dimensions = 2, num_points = 3, num_evals = 0,
     simplex = [[0, 0], [1, 0], [0, 1]], func_vals = [0, 1, 1], func_min = 0,
     simplex_sums = [1, 1]\<rparr>"

text \<open>
  A configuration with a budget of three evaluations, a state whose values are all equal
  and whose counter is far beyond the budget, and a state on the triangle whose counter has
  just reached it.
\<close>

definition settings :: config where
  "settings = \<lparr>EPSILON = 1 / 100, function_tol = 1 / 10, MAX_ITERS = 3\<rparr>"

definition flat :: nelder_mead where
  "flat = \<lparr>num_dimensions = 2, num_points = 3, num_evals = 9,
     simplex = [[0, 0], [1, 0], [0, 1]], func_vals = [5, 5, 5], func_min = 0,
     simplex_sums = [1, 1]\<rparr>"

definition spent :: nelder_mead where
  "spent = \<lparr>num_dimensions = 2, num_points = 3, num_evals = 3,
     simplex = [[0, 0], [1, 0], [0, 1]], func_vals = [0, 1, 1], func_min = 0,
     simplex_sums = [1, 1]\<rparr>"

text \<open>
  The objective \<open>(x - 3)\<^sup>2 + (y + 1)\<^sup>2\<close> and the state in which the run from the rows
  (0,0) and (1,1) ends.
\<close>

definition bowl :: "vec \<Rightarrow> real" where
  "bowl v = (v ! 0 - 3) * (v ! 0 - 3) + (v ! 1 + 1) * (v ! 1 + 1)"

definition collapsed :: nelder_mead where
  "collapsed = \<lparr>num_dimensions = 2, num_points = 2, num_evals = 2,
     simplex = [[1, 1], [1, 1]], func_vals = [8, 8], func_min = 8, simplex_sums = [2, 2]\<rparr>"

text \<open>
  An objective with a ridge between the vertices of the triangle, and the state after one
  geometric step on it: reflection and contraction both fail and the simplex is shrunk.
\<close>

definition bumpy :: "vec \<Rightarrow> real" where
  "bumpy v = v ! 0 * v ! 0 + v ! 1 * v ! 1 + 16 * (v ! 0 * (1 - v ! 0)) * (v ! 0 * (1 - v ! 0))"

definition halved :: nelder_mead where
  "halved = \<lparr>num_dimensions = 2, num_points = 3, num_evals = 4,
     simplex = [[0, 0], [1 / 2, 0], [0, 1 / 2]], func_vals = [0, 5 / 4, 1 / 4], func_min = 0,
     simplex_sums = [1 / 2, 1 / 2]\<rparr>"

lemma shrink_run: "geometric_operator bumpy 0 1 2 triangle = Inr halved"
  unfolding triangle_def halved_def bumpy_def by code_simp

text \<open>
  A budget of one evaluation; the objective \<open>x\<^sup>2 + y\<^sup>2\<close>; the state in which the run from
  the rows (1,0) and (0,2) starts and the one after its first pass.
\<close>

definition tight :: config where
  "tight = \<lparr>EPSILON = 1 / 100, function_tol = 1 / 10, MAX_ITERS = 1\<rparr>"

definition squares :: "vec \<Rightarrow> real" where
  "squares v = v ! 0 * v ! 0 + v ! 1 * v ! 1"

definition started :: nelder_mead where
  "started = \<lparr>num_dimensions = 2, num_points = 2, num_evals = 0,
     simplex = [[1, 0], [0, 2]], func_vals = [1, 4], func_min = 0, simplex_sums = [1, 2]\<rparr>"

definition overdrawn :: nelder_mead where
  "overdrawn = \<lparr>num_dimensions = 2, num_points = 2, num_evals = 4,
     simplex = [[1, 0], [5 / 8, 1 / 2]], func_vals = [1, 41 / 64], func_min = 0,
     simplex_sums = [13 / 8, 1 / 2]\<rparr>"

text \<open>
  The objective \<open>10 + 2 y\<^sup>2\<close>, the triangle with its values, and the state in which the
  run on it ends.
\<close>

definition trough :: "vec \<Rightarrow> real" where
  "trough v = 10 + 2 * (v ! 1 * v ! 1)"

definition grooved :: nelder_mead where
  "grooved = \<lparr>num_dimensions = 2, num_points = 3, num_evals = 0,
     simplex = [[0, 0], [1, 0], [0, 1]], func_vals = [10, 10, 12], func_min = 0,
     simplex_sums = [1, 1]\<rparr>"

definition settled :: nelder_mead where
  "settled = \<lparr>num_dimensions = 2, num_points = 3, num_evals = 4,
     simplex = [[1, 0], [1 / 2, 0], [5 / 8, 1 / 4]], func_vals = [10, 10, 81 / 8], func_min = 10,
     simplex_sums = [17 / 8, 1 / 4]\<rparr>"

text \<open>The state after the initialisation on the rows (0,0) and (1,1).\<close>

definition fresh :: nelder_mead where
  "fresh = \<lparr>num_dimensions = 2, num_points = 2, num_evals = 0,
     simplex = [[0, 0], [1, 1]], func_vals = [10, 8], func_min = 0, simplex_sums = [1, 1]\<rparr>"

section \<open>The claims\<close>

subsection \<open>C1: the branches of the geometric operator\<close>

text \<open>
  C1, as amended. On a state whose accesses are in range, with the indices of the ranking
  (\<open>high\<close> differs from \<open>low\<close> and from \<open>next_high\<close>), the geometric operator completes.
  It first computes the reflection of the worst vertex with factor \<open>-1\<close> and keeps it when
  it improves on the worst value. If the reflected value is better than OR EQUAL TO the
  best value (line 120 tests \<open>\<le>\<close>), an expansion with factor 2 is attempted from the state
  after the reflection and kept when it improves on the value then stored for the worst
  index, so that the better of the two stands there. Else, if the reflected value is worse
  than or equal to the second-worst value, a contraction with factor 1/2 is attempted;
  when its value is still not below the second-worst value read before the contraction,
  the shrink runs: every vertex except the best moves halfway toward the best vertex and
  is evaluated again, and the cached sums are recomputed from the new simplex. Otherwise
  the reflected vertex has been accepted as the new worst vertex and one evaluation is
  given back.
\<close>

theorem geometric_operator_branches:
  assumes "in_range s"
    and "low < num_points s" and "high < num_points s" and "nh < num_points s"
    and "low \<noteq> high" and "nh \<noteq> high"
    and "length (simplex_sums s) = num_dimensions s"
  shows "\<exists>s' ev. geometric_operator f low high nh s = Inr s' \<and> trial_point s high (- 1) = Inr ev
    \<and> (let s1 = after_trial f high ev (s\<lparr>num_evals := num_evals s + 2\<rparr>) in
         (f ev \<le> func_vals s ! low \<longrightarrow>
            (\<exists>ev2. trial_point s1 high 2 = Inr ev2 \<and> s' = after_trial f high ev2 s1))
       \<and> (func_vals s ! low < f ev \<and> func_vals s ! nh \<le> f ev \<longrightarrow>
            (\<exists>ev3. trial_point s1 high (1 / 2) = Inr ev3
               \<and> (let s2 = after_trial f high ev3 s1 in
                    (f ev3 < func_vals s ! nh \<longrightarrow> s' = s2)
                  \<and> (func_vals s ! nh \<le> f ev3 \<longrightarrow>
                       shrink f low s2 = Inr s' \<and> shrunk_toward f low s2 s'))))
       \<and> (func_vals s ! low < f ev \<and> f ev < func_vals s ! nh \<longrightarrow>
            s' = s1\<lparr>num_evals := num_evals s + 1\<rparr>
            \<and> (func_vals s ! nh \<le> func_vals s ! high \<longrightarrow>
                 s1 = replace_worst (s\<lparr>num_evals := num_evals s + 2\<rparr>) high ev (f ev))))"
proof -
  obtain s' where run: "geometric_operator f low high nh s = Inr s'"
    using geometric_operator_completes [OF assms(1-4)] by blast
  let ?s0 = "s\<lparr>num_evals := num_evals s + 2\<rparr>"
  obtain ev where ev: "trial_point s high (- 1) = Inr ev"
    and expand: "f ev \<le> func_vals s ! low \<longrightarrow>
          (\<exists>ev2. trial_point (after_trial f high ev ?s0) high 2 = Inr ev2
             \<and> s' = after_trial f high ev2 (after_trial f high ev ?s0))"
    and accept: "func_vals s ! low < f ev \<and> f ev < func_vals s ! nh \<longrightarrow>
          s' = (after_trial f high ev ?s0)\<lparr>num_evals := num_evals s + 1\<rparr>"
    and contract: "func_vals s ! low < f ev \<and> func_vals s ! nh \<le> f ev \<longrightarrow>
          (\<exists>ev3. trial_point (after_trial f high ev ?s0) high (1 / 2) = Inr ev3
             \<and> (f ev3 < func_vals s ! nh \<longrightarrow>
                   s' = after_trial f high ev3 (after_trial f high ev ?s0))
             \<and> (func_vals s ! nh \<le> f ev3 \<longrightarrow>
                   shrink f low (after_trial f high ev3 (after_trial f high ev ?s0)) = Inr s'))"
    using geometric_operator_cases [OF run assms(5,6)] by (elim exE conjE) (rule that)
  let ?s1 = "after_trial f high ev ?s0"
  have len1: "length (simplex_sums ?s1) = num_dimensions ?s1"
    using after_trial_sums_length [of ?s0 high "- 1" ev f] ev assms(7) by simp
  have shrunk: "shrunk_toward f low (after_trial f high ev3 ?s1) s'"
    if "trial_point ?s1 high (1 / 2) = Inr ev3"
      and "shrink f low (after_trial f high ev3 ?s1) = Inr s'" for ev3
  proof -
    have "length (simplex_sums (after_trial f high ev3 ?s1))
        = num_dimensions (after_trial f high ev3 ?s1)"
      using after_trial_sums_length [OF that(1) len1] by simp
    with that(2) show ?thesis
      by (rule shrink_effect)
  qed
  have committed: "?s1 = replace_worst ?s0 high ev (f ev)"
    if "f ev < func_vals s ! nh" "func_vals s ! nh \<le> func_vals s ! high"
    using that by (simp add: after_trial_def)
  show ?thesis
    unfolding Let_def
    using run ev expand accept contract shrunk committed by blast
qed

text \<open>On the triangle with the ridge: neither the reflection nor the contraction is kept, and the simplex is shrunk.\<close>

theorem geometric_operator_branches_witness:
  "in_range triangle \<and> (0 :: nat) < num_points triangle \<and> 1 < num_points triangle
   \<and> 2 < num_points triangle \<and> (0 :: nat) \<noteq> 1 \<and> (2 :: nat) \<noteq> 1
   \<and> length (simplex_sums triangle) = num_dimensions triangle
   \<and> ranking (func_vals triangle) (num_points triangle) = Inr (0, 1, 2)
   \<and> geometric_operator bumpy 0 1 2 triangle = Inr halved
   \<and> (\<exists>s'. geometric_operator bumpy 0 1 2 triangle = Inr s')"
proof -
  have ir: "in_range triangle"
    by (simp add: in_range_def triangle_def less_Suc_eq numeral_3_eq_3)
  have b: "(0 :: nat) < num_points triangle" "1 < num_points triangle" "2 < num_points triangle"
    by (simp_all add: triangle_def)
  have ne: "(0 :: nat) \<noteq> 1" "(2 :: nat) \<noteq> 1"
    by simp_all
  have len: "length (simplex_sums triangle) = num_dimensions triangle"
    by (simp add: triangle_def)
  have r: "ranking (func_vals triangle) (num_points triangle) = Inr (0, 1, 2)"
    unfolding triangle_def by code_simp
  obtain s' where "geometric_operator bumpy 0 1 2 triangle = Inr s'"
    using geometric_operator_branches [OF ir b ne len, of bumpy]
    by (elim exE conjunct1 [elim_format])
  then have ex: "\<exists>s'. geometric_operator bumpy 0 1 2 triangle = Inr s'"
    by (rule exI)
  show ?thesis
    by (intro conjI) (rule ir b ne len r shrink_run ex)+
qed

text \<open>
  C1 as stated fails where the reflected value equals the best value. On the triangle
  with the objective \<open>x + y\<close> the reflected vertex (-1, 1) has the value 0 of the best
  vertex: it is not better than the best value, and it is below the second-worst value 1,
  so by the claim it would simply be accepted. The code attempts the expansion and the
  worst vertex becomes (-2, 3/2).
\<close>

theorem expansion_on_equal_counterexample:
  "ranking (func_vals triangle) (num_points triangle) = Inr (0, 1, 2)
   \<and> trial_point triangle 1 (- 1) = Inr [- 1, 1]
   \<and> [- 1, 1] ! 0 + [- 1, 1 :: real] ! 1 = func_vals triangle ! 0
   \<and> [- 1, 1] ! 0 + [- 1, 1 :: real] ! 1 < func_vals triangle ! 2
   \<and> geometric_operator (\<lambda>v. v ! 0 + v ! 1) 0 1 2 triangle
       = Inr (triangle\<lparr>num_evals := 2, simplex := [[0, 0], [- 2, 3 / 2], [0, 1]],
                       func_vals := [0, - (1 / 2), 1], simplex_sums := [- 2, 5 / 2]\<rparr>)
   \<and> [- 2, 3 / 2] \<noteq> [- 1, 1 :: real]"
  unfolding triangle_def by code_simp

subsection \<open>C2: the convergence test and the returned vertex\<close>

text \<open>
  C2. At the top of a pass over at least two vertices the ranking yields \<open>low\<close> and
  \<open>high\<close>, and the test computes
  \<open>2 * |values[high] - values[low]| / (|values[high]| + |values[low]| + epsilon)\<close>.
  When this spread is strictly below \<open>function_tol_\<close> the run ends there with success:
  it returns the vertex at \<open>low\<close>, which with its value has been swapped into position
  0, and the value at position 0 is smallest-or-equal among the paired values. When the
  spread is not below the tolerance, the pass does not return. For a whole run of
  \<open>minimize\<close> that returns: the returned vertex is row 0 of the final simplex,
  \<open>func_min_\<close> is the objective at it, and the objective at it is smallest-or-equal among
  the objective values of the vertices of the final simplex.
\<close>

theorem convergence_returns_best:
  "(2 \<le> num_points s \<and> num_points s \<le> length (func_vals s) \<and> num_points s \<le> length (simplex s)
      \<longrightarrow> (\<exists>low high nh. ranking (func_vals s) (num_points s) = Inr (low, high, nh)
            \<and> (let sp = 2 * \<bar>func_vals s ! high - func_vals s ! low\<bar>
                           / (\<bar>func_vals s ! high\<bar> + \<bar>func_vals s ! low\<bar> + EPSILON cfg)
               in tolerance cfg (func_vals s) low high = Inr sp
                  \<and> (sp < function_tol cfg \<longrightarrow>
                        nm_loop cfg f s = Inr (simplex s ! low, swapped_to_front s low)
                        \<and> simplex (swapped_to_front s low) ! 0 = simplex s ! low
                        \<and> (\<forall>i<num_points s. func_vals (swapped_to_front s low) ! 0
                                              \<le> func_vals (swapped_to_front s low) ! i))
                  \<and> (\<not> sp < function_tol cfg \<longrightarrow>
                        (\<forall>v s'. nm_step cfg f s \<noteq> Inr (Returned v s'))))))
   \<and> (minimize cfg f initial_simplex = Inr (v, s')
      \<longrightarrow> v = simplex s' ! 0 \<and> func_min s' = f (take (num_dimensions s') v)
          \<and> (\<forall>i<num_points s'. f (take (num_dimensions s') v)
                                 \<le> f (take (num_dimensions s') (simplex s' ! i))))"
proof (rule conjI)
  show "2 \<le> num_points s \<and> num_points s \<le> length (func_vals s) \<and> num_points s \<le> length (simplex s)
      \<longrightarrow> (\<exists>low high nh. ranking (func_vals s) (num_points s) = Inr (low, high, nh)
            \<and> (let sp = 2 * \<bar>func_vals s ! high - func_vals s ! low\<bar>
                           / (\<bar>func_vals s ! high\<bar> + \<bar>func_vals s ! low\<bar> + EPSILON cfg)
               in tolerance cfg (func_vals s) low high = Inr sp
                  \<and> (sp < function_tol cfg \<longrightarrow>
                        nm_loop cfg f s = Inr (simplex s ! low, swapped_to_front s low)
                        \<and> simplex (swapped_to_front s low) ! 0 = simplex s ! low
                        \<and> (\<forall>i<num_points s. func_vals (swapped_to_front s low) ! 0
                                              \<le> func_vals (swapped_to_front s low) ! i))
                  \<and> (\<not> sp < function_tol cfg \<longrightarrow>
                        (\<forall>v s'. nm_step cfg f s \<noteq> Inr (Returned v s')))))"
  proof (rule impI)
    assume "2 \<le> num_points s \<and> num_points s \<le> length (func_vals s)
        \<and> num_points s \<le> length (simplex s)"
    then have b: "2 \<le> num_points s" "num_points s \<le> length (func_vals s)"
      "num_points s \<le> length (simplex s)"
      by simp_all
    obtain low high nh where "ranking (func_vals s) (num_points s) = Inr (low, high, nh)
       \<and> low < num_points s
       \<and> tolerance cfg (func_vals s) low high
           = Inr (spread cfg (func_vals s ! high) (func_vals s ! low))
       \<and> (spread cfg (func_vals s ! high) (func_vals s ! low) < function_tol cfg \<longrightarrow>
             nm_step cfg f s = Inr (Returned (simplex s ! low) (swapped_to_front s low))
             \<and> nm_loop cfg f s = Inr (simplex s ! low, swapped_to_front s low)
             \<and> simplex (swapped_to_front s low) ! 0 = simplex s ! low
             \<and> (\<forall>i<num_points s. func_vals (swapped_to_front s low) ! 0
                                   \<le> func_vals (swapped_to_front s low) ! i))
       \<and> (\<not> spread cfg (func_vals s ! high) (func_vals s ! low) < function_tol cfg \<longrightarrow>
             (\<forall>v s'. nm_step cfg f s \<noteq> Inr (Returned v s')))"
      using pass_at_convergence [OF b, of cfg f] by (elim exE) (rule that)
    then have "ranking (func_vals s) (num_points s) = Inr (low, high, nh)
            \<and> (let sp = 2 * \<bar>func_vals s ! high - func_vals s ! low\<bar>
                           / (\<bar>func_vals s ! high\<bar> + \<bar>func_vals s ! low\<bar> + EPSILON cfg)
               in tolerance cfg (func_vals s) low high = Inr sp
                  \<and> (sp < function_tol cfg \<longrightarrow>
                        nm_loop cfg f s = Inr (simplex s ! low, swapped_to_front s low)
                        \<and> simplex (swapped_to_front s low) ! 0 = simplex s ! low
                        \<and> (\<forall>i<num_points s. func_vals (swapped_to_front s low) ! 0
                                              \<le> func_vals (swapped_to_front s low) ! i))
                  \<and> (\<not> sp < function_tol cfg \<longrightarrow>
                        (\<forall>v s'. nm_step cfg f s \<noteq> Inr (Returned v s'))))"
      unfolding spread_def Let_def by simp
    then show "\<exists>low high nh. ranking (func_vals s) (num_points s) = Inr (low, high, nh)
            \<and> (let sp = 2 * \<bar>func_vals s ! high - func_vals s ! low\<bar>
                           / (\<bar>func_vals s ! high\<bar> + \<bar>func_vals s ! low\<bar> + EPSILON cfg)
               in tolerance cfg (func_vals s) low high = Inr sp
                  \<and> (sp < function_tol cfg \<longrightarrow>
                        nm_loop cfg f s = Inr (simplex s ! low, swapped_to_front s low)
                        \<and> simplex (swapped_to_front s low) ! 0 = simplex s ! low
                        \<and> (\<forall>i<num_points s. func_vals (swapped_to_front s low) ! 0
                                              \<le> func_vals (swapped_to_front s low) ! i))
                  \<and> (\<not> sp < function_tol cfg \<longrightarrow>
                        (\<forall>v s'. nm_step cfg f s \<noteq> Inr (Returned v s'))))"
      by (intro exI)
  qed
next
  show "minimize cfg f initial_simplex = Inr (v, s')
      \<longrightarrow> v = simplex s' ! 0 \<and> func_min s' = f (take (num_dimensions s') v)
          \<and> (\<forall>i<num_points s'. f (take (num_dimensions s') v)
                                 \<le> f (take (num_dimensions s') (simplex s' ! i)))"
    using minimize_returns_least [of cfg f initial_simplex v s'] by (rule impI)
qed

theorem convergence_returns_best_witness:
  "(2 \<le> num_points flat \<and> num_points flat \<le> length (func_vals flat)
      \<and> num_points flat \<le> length (simplex flat))
   \<and> nm_loop settings (\<lambda>v. 5) flat = Inr ([0, 1], swapped_to_front flat 2)
   \<and> (\<exists>low high nh. ranking (func_vals flat) (num_points flat) = Inr (low, high, nh))
   \<and> minimize settings bowl [[0, 0], [1, 1]] = Inr ([1, 1], collapsed)
   \<and> func_min collapsed = bowl (take (num_dimensions collapsed) [1, 1])"
proof -
  have b: "2 \<le> num_points flat \<and> num_points flat \<le> length (func_vals flat)
      \<and> num_points flat \<le> length (simplex flat)"
    by (simp add: flat_def)
  have l: "nm_loop settings (\<lambda>v. 5) flat = Inr ([0, 1], swapped_to_front flat 2)"
    unfolding settings_def flat_def swapped_to_front_def by code_simp
  have "\<exists>low high nh. ranking (func_vals flat) (num_points flat) = Inr (low, high, nh)
      \<and> (let sp = 2 * \<bar>func_vals flat ! high - func_vals flat ! low\<bar>
                     / (\<bar>func_vals flat ! high\<bar> + \<bar>func_vals flat ! low\<bar> + EPSILON settings)
         in tolerance settings (func_vals flat) low high = Inr sp
            \<and> (sp < function_tol settings \<longrightarrow>
                  nm_loop settings (\<lambda>v. 5) flat = Inr (simplex flat ! low, swapped_to_front flat low)
                  \<and> simplex (swapped_to_front flat low) ! 0 = simplex flat ! low
                  \<and> (\<forall>i<num_points flat. func_vals (swapped_to_front flat low) ! 0
                                        \<le> func_vals (swapped_to_front flat low) ! i))
            \<and> (\<not> sp < function_tol settings \<longrightarrow>
                  (\<forall>v s'. nm_step settings (\<lambda>v. 5) flat \<noteq> Inr (Returned v s'))))"
    by (rule convergence_returns_best [of flat settings "\<lambda>v. 5", THEN conjunct1, THEN mp, OF b])
  then obtain low high nh where "ranking (func_vals flat) (num_points flat) = Inr (low, high, nh)"
    by (elim exE conjunct1 [elim_format])
  then have r: "\<exists>low high nh. ranking (func_vals flat) (num_points flat) = Inr (low, high, nh)"
    by (intro exI)
  have m: "minimize settings bowl [[0, 0], [1, 1]] = Inr ([1, 1], collapsed)"
    unfolding settings_def collapsed_def bowl_def by code_simp
  have c: "func_min collapsed = bowl (take (num_dimensions collapsed) [1, 1])"
    by (rule convergence_returns_best [of _ settings bowl "[[0, 0], [1, 1]]" "[1, 1]" collapsed,
          THEN conjunct2, THEN mp, OF m, THEN conjunct2, THEN conjunct1])
  show ?thesis
    by (intro conjI) (rule b [THEN conjunct1] b [THEN conjunct2, THEN conjunct1]
        b [THEN conjunct2, THEN conjunct2] l r m c)+
qed

subsection \<open>C3: what the evaluation counter is charged\<close>

text \<open>
  C3, as amended. Every pass adds 2 to the counter before the reflection; the branch that
  only accepts the reflection gives 1 back (net 1), the expansion and the contraction
  leave the 2, and a shrink adds \<open>num_dimensions_\<close> more. The budget is looked at only at
  the start of a pass, after the convergence test: a pass runs its geometric step only
  while the counter is below \<open>MAX_ITERS_\<close>, and from a state in range the loop ends either
  with a vertex or with \<open>MaxIterationsExceeded\<close>. So the counter after a successful run is at
  most \<open>MAX_ITERS_ + num_dimensions_ + 1\<close>, and a run that ends with
  \<open>MaxIterationsExceeded\<close> does so at the start of a pass, with a counter between
  \<open>MAX_ITERS_\<close> and \<open>MAX_ITERS_ + num_dimensions_ + 1\<close>.
\<close>

theorem evaluation_counter_charges:
  "(geometric_operator f low high nh s = Inr s' \<and> low \<noteq> high \<and> nh \<noteq> high \<longrightarrow>
      (\<exists>ev. trial_point s high (- 1) = Inr ev
        \<and> (f ev \<le> func_vals s ! low \<longrightarrow> num_evals s' = num_evals s + 2)
        \<and> (func_vals s ! low < f ev \<and> f ev < func_vals s ! nh \<longrightarrow> num_evals s' = num_evals s + 1)
        \<and> (func_vals s ! low < f ev \<and> func_vals s ! nh \<le> f ev \<longrightarrow>
              (\<exists>ev3. trial_point (after_trial f high ev (s\<lparr>num_evals := num_evals s + 2\<rparr>)) high (1 / 2)
                        = Inr ev3
                 \<and> (f ev3 < func_vals s ! nh \<longrightarrow> num_evals s' = num_evals s + 2)
                 \<and> (func_vals s ! nh \<le> f ev3 \<longrightarrow>
                       num_evals s' = num_evals s + 2 + num_dimensions s)))))
   \<and> (nm_step cfg f s = Inr (Continue s') \<longrightarrow> num_evals s < MAX_ITERS cfg)
   \<and> (in_range s \<and> 2 \<le> num_points s \<longrightarrow>
        (\<exists>v t. nm_loop cfg f s = Inr (v, t)) \<or> nm_loop cfg f s = Inl MaxIterationsExceeded)
   \<and> (minimize cfg f initial_simplex = Inr (v, t) \<longrightarrow>
        num_evals t \<le> MAX_ITERS cfg + num_dimensions t + 1)
   \<and> (minimize cfg f initial_simplex = Inl MaxIterationsExceeded \<longrightarrow>
        (\<exists>s0 t. initialise f initial_simplex = Inr s0 \<and> nm_reaches cfg f s0 t
           \<and> nm_step cfg f t = Inl MaxIterationsExceeded
           \<and> MAX_ITERS cfg \<le> num_evals t \<and> num_evals t \<le> MAX_ITERS cfg + num_dimensions t + 1))"
proof (intro conjI)
  show "geometric_operator f low high nh s = Inr s' \<and> low \<noteq> high \<and> nh \<noteq> high \<longrightarrow>
      (\<exists>ev. trial_point s high (- 1) = Inr ev
        \<and> (f ev \<le> func_vals s ! low \<longrightarrow> num_evals s' = num_evals s + 2)
        \<and> (func_vals s ! low < f ev \<and> f ev < func_vals s ! nh \<longrightarrow> num_evals s' = num_evals s + 1)
        \<and> (func_vals s ! low < f ev \<and> func_vals s ! nh \<le> f ev \<longrightarrow>
              (\<exists>ev3. trial_point (after_trial f high ev (s\<lparr>num_evals := num_evals s + 2\<rparr>)) high (1 / 2)
                        = Inr ev3
                 \<and> (f ev3 < func_vals s ! nh \<longrightarrow> num_evals s' = num_evals s + 2)
                 \<and> (func_vals s ! nh \<le> f ev3 \<longrightarrow>
                       num_evals s' = num_evals s + 2 + num_dimensions s))))"
    using geometric_operator_charges [of f low high nh s s'] by (intro impI) (elim conjE)
  show "nm_step cfg f s = Inr (Continue s') \<longrightarrow> num_evals s < MAX_ITERS cfg"
    using nm_step_Continue_evals [of cfg f s s'] by simp
  show "in_range s \<and> 2 \<le> num_points s \<longrightarrow>
        (\<exists>v t. nm_loop cfg f s = Inr (v, t)) \<or> nm_loop cfg f s = Inl MaxIterationsExceeded"
    using nm_loop_outcome [of s cfg f] by (intro impI) (elim conjE)
  show "minimize cfg f initial_simplex = Inr (v, t) \<longrightarrow>
        num_evals t \<le> MAX_ITERS cfg + num_dimensions t + 1"
    using minimize_budget [of cfg f initial_simplex v t] by (rule impI)
  show "minimize cfg f initial_simplex = Inl MaxIterationsExceeded \<longrightarrow>
        (\<exists>s0 t. initialise f initial_simplex = Inr s0 \<and> nm_reaches cfg f s0 t
           \<and> nm_step cfg f t = Inl MaxIterationsExceeded
           \<and> MAX_ITERS cfg \<le> num_evals t \<and> num_evals t \<le> MAX_ITERS cfg + num_dimensions t + 1)"
    using minimize_throws [of cfg f initial_simplex] by (rule impI)
qed

theorem evaluation_counter_charges_witness:
  "geometric_operator bumpy 0 1 2 triangle = Inr halved
   \<and> num_evals halved = num_evals triangle + 2 + num_dimensions triangle
   \<and> (\<exists>ev. trial_point triangle 1 (- 1) = Inr ev)
   \<and> minimize tight bowl [[0, 0], [1, 1]] = Inr ([1, 1], collapsed)
   \<and> num_evals collapsed \<le> MAX_ITERS tight + num_dimensions collapsed + 1
   \<and> minimize tight squares [[1, 0], [0, 2]] = Inl MaxIterationsExceeded
   \<and> (\<exists>s0 t. initialise squares [[1, 0], [0, 2]] = Inr s0 \<and> nm_reaches tight squares s0 t
         \<and> nm_step tight squares t = Inl MaxIterationsExceeded
         \<and> MAX_ITERS tight \<le> num_evals t \<and> num_evals t \<le> MAX_ITERS tight + num_dimensions t + 1)"
proof -
  note inst = evaluation_counter_charges [where f = bumpy and low = 0 and high = 1 and nh = 2
      and s = triangle and s' = halved]
  have pre: "geometric_operator bumpy 0 1 2 triangle = Inr halved \<and> (0 :: nat) \<noteq> 1 \<and> (2 :: nat) \<noteq> 1"
    using shrink_run by simp
  obtain ev where "trial_point triangle 1 (- 1) = Inr ev"
    using inst [THEN conjunct1, THEN mp, OF pre] by (elim exE conjunct1 [elim_format])
  then have ex: "\<exists>ev. trial_point triangle 1 (- 1) = Inr ev"
    by (rule exI)
  have n: "num_evals halved = num_evals triangle + 2 + num_dimensions triangle"
    by (simp add: halved_def triangle_def)
  have m: "minimize tight bowl [[0, 0], [1, 1]] = Inr ([1, 1], collapsed)"
    unfolding tight_def collapsed_def bowl_def by code_simp
  have bound: "num_evals collapsed \<le> MAX_ITERS tight + num_dimensions collapsed + 1"
    by (rule evaluation_counter_charges [where cfg = tight and f = bowl
          and initial_simplex = "[[0, 0], [1, 1]]" and v = "[1, 1]" and t = collapsed,
          THEN conjunct2, THEN conjunct2, THEN conjunct2, THEN conjunct1, THEN mp, OF m])
  have x: "minimize tight squares [[1, 0], [0, 2]] = Inl MaxIterationsExceeded"
    unfolding tight_def squares_def by code_simp
  have thrown: "\<exists>s0 t. initialise squares [[1, 0], [0, 2]] = Inr s0 \<and> nm_reaches tight squares s0 t
         \<and> nm_step tight squares t = Inl MaxIterationsExceeded
         \<and> MAX_ITERS tight \<le> num_evals t \<and> num_evals t \<le> MAX_ITERS tight + num_dimensions t + 1"
    by (rule evaluation_counter_charges [where cfg = tight and f = squares
          and initial_simplex = "[[1, 0], [0, 2]]",
          THEN conjunct2, THEN conjunct2, THEN conjunct2, THEN conjunct2, THEN mp, OF x])
  show ?thesis
    by (intro conjI) (rule shrink_run n ex m bound x thrown)+
qed

text \<open>
  C3 as stated fails. With a budget of one evaluation, the loop entered on the triangle
  with the objective \<open>10 + 2 y\<^sup>2\<close> runs one pass (a contraction and a shrink, four
  evaluations charged) and returns with the counter at 4; with the ridge objective it
  starts its only geometric step with the counter at 0, leaves it at 4, and throws at the
  start of the next pass, three evaluations beyond the budget. The same happens in whole
  runs of \<open>minimize\<close>: from the rows (0,0) and (1,1) the run succeeds with the counter at
  2, and from (1,0) and (0,2) it throws with the counter at 4.
\<close>

theorem budget_overrun_counterexample:
  "nm_loop tight trough grooved = Inr ([1, 0], settled)
   \<and> MAX_ITERS tight < num_evals settled
   \<and> num_evals triangle < MAX_ITERS tight
   \<and> nm_step tight bumpy triangle = Inr (Continue halved)
   \<and> nm_step tight bumpy halved = Inl MaxIterationsExceeded
   \<and> MAX_ITERS tight + 3 = num_evals halved
   \<and> minimize tight bowl [[0, 0], [1, 1]] = Inr ([1, 1], collapsed)
   \<and> MAX_ITERS tight < num_evals collapsed
   \<and> initialise squares [[1, 0], [0, 2]] = Inr started
   \<and> nm_step tight squares started = Inr (Continue overdrawn)
   \<and> nm_step tight squares overdrawn = Inl MaxIterationsExceeded
   \<and> MAX_ITERS tight + 3 = num_evals overdrawn"
  unfolding tight_def collapsed_def bowl_def squares_def started_def overdrawn_def
    trough_def grooved_def settled_def bumpy_def triangle_def halved_def
  by code_simp

subsection \<open>C4: the trial vertex and the centroid\<close>

text \<open>
  C4. The claim is that for every worst index and factor \<open>f\<close> the trial vertex is the
  affine combination \<open>(1 - f) * centroid + f * worst\<close> of the centroid of the other
  vertices and the worst vertex. \<open>reflect\<close> computes
  \<open>sum * (1 - f) / N - worst * ((1 - f) / N - f)\<close> with \<open>N = num_dimensions_\<close>, which is
  that combination on a state of \<open>N + 1\<close> vertices (\<open>trial_point_on_simplex\<close>). But
  \<open>minimize\<close> never runs on such a state: lines 47-48 take \<open>num_dimensions_\<close> from the number
  of rows and \<open>num_points_\<close> from the length of row 0, and every state in which the loop
  begins a pass holds exactly \<open>num_dimensions_\<close> vertices. In each pass, at the first call
  of \<open>reflect\<close> (line 115) and at the second (lines 121 and 127, on the state the first
  call leaves), each trial coordinate is
  \<open>(1 - f) * ((N - 1) / N) * centroid + f * worst\<close>: the affine combination of the claim
  only when \<open>f = 1\<close> or that coordinate of the centroid is 0.
\<close>

theorem trial_point_off_centroid:
  assumes "initialise f initial_simplex = Inr s0" and "nm_reaches cfg f s0 s"
    and "w < num_points s"
  shows "let s1 = s\<lparr>num_evals := num_evals s + 2\<rparr> in
    \<exists>ev0. trial_point s1 w (- 1) = Inr ev0
      \<and> (\<forall>t \<in> {s1, after_trial f w ev0 s1}.
           num_points t = num_dimensions t
           \<and> (\<exists>ev. trial_point t w factor = Inr ev \<and> length ev = num_dimensions t
              \<and> (\<forall>j<num_dimensions t.
                   ev ! j = simplex_sums t ! j * (1 - factor) / real (num_dimensions t)
                            - simplex t ! w ! j * ((1 - factor) / real (num_dimensions t) - factor)
                 \<and> ev ! j = (1 - factor) * (real (num_dimensions t - 1) / real (num_dimensions t))
                              * centroid_of_rest t w j
                            + factor * simplex t ! w ! j
                 \<and> (ev ! j = (1 - factor) * centroid_of_rest t w j + factor * simplex t ! w ! j
                      \<longleftrightarrow> factor = 1 \<or> centroid_of_rest t w j = 0))))"
proof -
  let ?s1 = "s\<lparr>num_evals := num_evals s + 2\<rparr>"
  have s: "in_range s" "sums_cached s" "num_points s = num_points s0"
    "num_dimensions s = num_dimensions s0"
    using reaches_cached [OF assms(2) paired_initialise [OF assms(1)]
        initialise_in_range [OF assms(1)] initialise_cached(1) [OF assms(1)]]
    by simp_all
  have "0 < num_points s0"
    using assms(3) s(3) by simp
  then have sq: "num_points s = num_dimensions s"
    using initialise_cached(2) [OF assms(1)] s(3,4) by simp
  have s1: "in_range ?s1" "sums_cached ?s1" "w < num_points ?s1"
    "num_points ?s1 = num_dimensions ?s1"
    using s(1,2) assms(3) sq by simp_all
  obtain ev0 where ev0: "trial_point ?s1 w (- 1) = Inr ev0"
    using square_trial [OF s1] by blast
  let ?s2 = "after_trial f w ev0 ?s1"
  have s2: "in_range ?s2" "sums_cached ?s2" "w < num_points ?s2"
    "num_points ?s2 = num_dimensions ?s2"
    using in_range_after_trial [OF s1(1) ev0] sums_cached_after_trial [OF s1(1,2,3) ev0]
      assms(3) sq
    by simp_all
  show ?thesis
    unfolding Let_def
    using ev0 s1(4) s2(4) square_trial [OF s1, of factor] square_trial [OF s2, of factor]
    by blast
qed

text \<open>
  In the run from the rows (1,0) and (0,2) with the objective \<open>x\<^sup>2 + y\<^sup>2\<close> the first
  trial vertex is (1,-2); the mirror image of the worst vertex (0,2) in the centroid (1,0)
  of the rest is (2,-2). The state after the first pass of that run is another instance.
\<close>

theorem trial_point_off_centroid_witness:
  "initialise squares [[1, 0], [0, 2]] = Inr started
   \<and> nm_reaches tight squares started started
   \<and> 1 < num_points started
   \<and> (\<exists>ev0. trial_point (started\<lparr>num_evals := num_evals started + 2\<rparr>) 1 (- 1) = Inr ev0)
   \<and> trial_point (started\<lparr>num_evals := num_evals started + 2\<rparr>) 1 (- 1) = Inr [1, - 2]
   \<and> map (\<lambda>j. (1 - (- 1)) * centroid_of_rest started 1 j + (- 1) * simplex started ! 1 ! j) [0, 1]
       = [2, - 2]
   \<and> nm_reaches tight squares started overdrawn
   \<and> 0 < num_points overdrawn
   \<and> (\<exists>ev0. trial_point (overdrawn\<lparr>num_evals := num_evals overdrawn + 2\<rparr>) 0 (- 1) = Inr ev0)"
proof -
  have a: "initialise squares [[1, 0], [0, 2]] = Inr started"
    unfolding squares_def started_def by code_simp
  have b: "nm_reaches tight squares started started"
    by (rule nm_reaches.here)
  have c: "1 < num_points started"
    by (simp add: started_def)
  have d: "\<exists>ev0. trial_point (started\<lparr>num_evals := num_evals started + 2\<rparr>) 1 (- 1) = Inr ev0"
    using trial_point_off_centroid [OF a b c, where factor = "- 1"] unfolding Let_def
    by (elim exE conjE) (rule exI)
  have e: "trial_point (started\<lparr>num_evals := num_evals started + 2\<rparr>) 1 (- 1) = Inr [1, - 2]"
    unfolding started_def by code_simp
  have g: "map (\<lambda>j. (1 - (- 1)) * centroid_of_rest started 1 j + (- 1) * simplex started ! 1 ! j) [0, 1]
       = [2, - 2]"
    unfolding started_def centroid_of_rest_def by code_simp
  have "nm_step tight squares started = Inr (Continue overdrawn)"
    unfolding tight_def squares_def started_def overdrawn_def by code_simp
  then have h: "nm_reaches tight squares started overdrawn"
    using nm_reaches.here by (rule nm_reaches.pass)
  have k: "0 < num_points overdrawn"
    by (simp add: overdrawn_def)
  have m: "\<exists>ev0. trial_point (overdrawn\<lparr>num_evals := num_evals overdrawn + 2\<rparr>) 0 (- 1) = Inr ev0"
    using trial_point_off_centroid [OF a h k, where factor = "1 / 2"] unfolding Let_def
    by (elim exE conjE) (rule exI)
  show ?thesis
    by (intro conjI) (rule a b c d e g h k m)+
qed

subsection \<open>C5: the effect of reflect\<close>

text \<open>
  C5. A call of \<open>reflect\<close> whose accesses are in range (the worst index names a row and a
  value, the row and the sums have at least \<open>num_dimensions_\<close> entries) returns the
  objective value of the trial vertex. When that value is strictly below the worst value,
  the state afterwards is \<open>replace_worst\<close>: trial vertex, its value and the sums moved by
  new minus old; otherwise the state is the one before the call.
\<close>

theorem reflect_effect:
  assumes "w < length (simplex s)" and "num_dimensions s \<le> length (simplex s ! w)"
    and "num_dimensions s \<le> length (simplex_sums s)" and "w < length (func_vals s)"
  shows "\<exists>ev. trial_point s w factor = Inr ev
     \<and> reflect f w factor s =
         Inr (f ev, if f ev < func_vals s ! w then replace_worst s w ev (f ev) else s)"
  using assms by (rule reflect_total)

theorem reflect_effect_witness:
  "reflect (\<lambda>v. v ! 0 + v ! 1) 1 (- 1) triangle
     = Inr (0, triangle\<lparr>simplex := [[0, 0], [- 1, 1], [0, 1]], func_vals := [0, 0, 1],
                         simplex_sums := [- 1, 2]\<rparr>)
   \<and> reflect (\<lambda>v. v ! 0 + v ! 1) 1 1 triangle = Inr (1, triangle)"
proof -
  have "\<exists>ev. trial_point triangle 1 (- 1) = Inr ev
     \<and> reflect (\<lambda>v. v ! 0 + v ! 1) 1 (- 1) triangle =
         Inr (ev ! 0 + ev ! 1, if ev ! 0 + ev ! 1 < func_vals triangle ! 1
           then replace_worst triangle 1 ev (ev ! 0 + ev ! 1) else triangle)"
    by (rule reflect_effect) (simp_all add: triangle_def)
  moreover have "trial_point triangle 1 (- 1) = Inr [- 1, 1]"
    unfolding triangle_def by code_simp
  moreover have "replace_worst triangle 1 [- 1, 1] 0
      = triangle\<lparr>simplex := [[0, 0], [- 1, 1], [0, 1]], func_vals := [0, 0, 1],
                 simplex_sums := [- 1, 2]\<rparr>"
    unfolding triangle_def replace_worst_def by code_simp
  moreover have "reflect (\<lambda>v. v ! 0 + v ! 1) 1 1 triangle = Inr (1, triangle)"
    unfolding triangle_def by code_simp
  ultimately show ?thesis
    by (auto simp: triangle_def)
qed

subsection \<open>C6: the initial evaluation and the charge of a shrink\<close>

text \<open>
  C6, as amended. When the initialisation completes, the value sequence has
  \<open>num_points_\<close> entries (the length of the first row), entry \<open>i\<close> is the objective at the
  first \<open>num_dimensions_\<close> coordinates of row \<open>i\<close>, and the evaluation counter is 0: line
  64 resets it after the evaluations, which are not charged. A shrink that completes has
  charged \<open>num_dimensions_\<close> evaluations, has left the value of the best vertex alone and
  has evaluated every other vertex again. (The objective is a function in the model, so
  the order of the calls is not observable; entry \<open>i\<close> is written in pass \<open>i\<close> of the
  loop.)
\<close>

theorem initial_evaluation_not_charged:
  "(initialise f initial_simplex = Inr s \<longrightarrow>
      num_points s = length (initial_simplex ! 0) \<and> length (func_vals s) = num_points s
      \<and> (\<forall>i<num_points s. func_vals s ! i = f (take (num_dimensions s) (initial_simplex ! i)))
      \<and> num_evals s = 0)
   \<and> (shrink f low t = Inr t' \<and> length (simplex_sums t) = num_dimensions t \<longrightarrow>
      num_evals t' = num_evals t + num_dimensions t
      \<and> func_vals t' ! low = func_vals t ! low
      \<and> (\<forall>i<num_points t. i \<noteq> low \<longrightarrow>
            func_vals t' ! i = f (take (num_dimensions t) (simplex t' ! i))))"
proof (rule conjI)
  show "initialise f initial_simplex = Inr s \<longrightarrow>
      num_points s = length (initial_simplex ! 0) \<and> length (func_vals s) = num_points s
      \<and> (\<forall>i<num_points s. func_vals s ! i = f (take (num_dimensions s) (initial_simplex ! i)))
      \<and> num_evals s = 0"
  proof (rule impI)
    assume a: "initialise f initial_simplex = Inr s"
    show "num_points s = length (initial_simplex ! 0) \<and> length (func_vals s) = num_points s
      \<and> (\<forall>i<num_points s. func_vals s ! i = f (take (num_dimensions s) (initial_simplex ! i)))
      \<and> num_evals s = 0"
      using initialise_Inr(1,2,3) [OF a] by simp
  qed
next
  show "shrink f low t = Inr t' \<and> length (simplex_sums t) = num_dimensions t \<longrightarrow>
      num_evals t' = num_evals t + num_dimensions t
      \<and> func_vals t' ! low = func_vals t ! low
      \<and> (\<forall>i<num_points t. i \<noteq> low \<longrightarrow>
            func_vals t' ! i = f (take (num_dimensions t) (simplex t' ! i)))"
  proof (rule impI)
    assume "shrink f low t = Inr t' \<and> length (simplex_sums t) = num_dimensions t"
    then have "shrunk_toward f low t t'"
      using shrink_effect by blast
    then show "num_evals t' = num_evals t + num_dimensions t
      \<and> func_vals t' ! low = func_vals t ! low
      \<and> (\<forall>i<num_points t. i \<noteq> low \<longrightarrow>
            func_vals t' ! i = f (take (num_dimensions t) (simplex t' ! i)))"
      by (simp add: shrunk_toward_def)
  qed
qed

theorem initial_evaluation_not_charged_witness:
  "initialise bowl [[0, 0], [1, 1]] = Inr fresh
   \<and> (shrink bumpy 0 (triangle\<lparr>num_evals := 2\<rparr>) = Inr halved
        \<and> length (simplex_sums (triangle\<lparr>num_evals := 2\<rparr>)) = num_dimensions (triangle\<lparr>num_evals := 2\<rparr>))
   \<and> num_evals fresh = 0
   \<and> num_evals halved = num_evals (triangle\<lparr>num_evals := 2\<rparr>) + num_dimensions (triangle\<lparr>num_evals := 2\<rparr>)"
proof -
  have a: "initialise bowl [[0, 0], [1, 1]] = Inr fresh"
    unfolding fresh_def bowl_def by code_simp
  have "shrink bumpy 0 (triangle\<lparr>num_evals := 2\<rparr>) = Inr halved"
    unfolding triangle_def halved_def bumpy_def by code_simp
  moreover have "length (simplex_sums (triangle\<lparr>num_evals := 2\<rparr>))
      = num_dimensions (triangle\<lparr>num_evals := 2\<rparr>)"
    by (simp add: triangle_def)
  ultimately have b: "shrink bumpy 0 (triangle\<lparr>num_evals := 2\<rparr>) = Inr halved
      \<and> length (simplex_sums (triangle\<lparr>num_evals := 2\<rparr>))
          = num_dimensions (triangle\<lparr>num_evals := 2\<rparr>)"
    by (rule conjI)
  have c: "num_evals fresh = 0"
    by (rule initial_evaluation_not_charged [where f = bowl and initial_simplex = "[[0, 0], [1, 1]]"
          and s = fresh, THEN conjunct1, THEN mp, OF a, THEN conjunct2, THEN conjunct2, THEN conjunct2])
  have d: "num_evals halved
      = num_evals (triangle\<lparr>num_evals := 2\<rparr>) + num_dimensions (triangle\<lparr>num_evals := 2\<rparr>)"
    by (rule initial_evaluation_not_charged [where f = bumpy and low = 0
          and t = "triangle\<lparr>num_evals := 2\<rparr>" and t' = halved,
          THEN conjunct2, THEN mp, OF b, THEN conjunct1])
  show ?thesis
    by (intro conjI) (rule a b [THEN conjunct1] b [THEN conjunct2] c d)+
qed

text \<open>
  C6 as stated fails: after the two vertices have been evaluated the counter is 0, not
  the number of vertices.
\<close>

theorem initial_evaluations_counterexample:
  "initialise bowl [[0, 0], [1, 1]] = Inr fresh \<and> func_vals fresh = [10, 8]
   \<and> length (func_vals fresh) = 2 \<and> num_evals fresh = 0"
  unfolding fresh_def bowl_def by code_simp

subsection \<open>C7: the ranking pass\<close>

text \<open>
  C7, as amended. For at least two values the ranking pass returns three indices, and they
  are exactly the indices with these properties. \<open>low\<close> holds the minimum and is the
  latest index that does (line 76 replaces \<open>low\<close> on \<open>\<le>\<close>). \<open>high\<close> holds the maximum and
  is the earliest index that does, except that index 1 comes before index 0 when their
  values are equal (line 72 starts from \<open>high = 1\<close> unless the value at 0 is strictly
  greater; line 80 replaces \<open>high\<close> only on \<open>>\<close>). \<open>next_high\<close> differs from \<open>high\<close>,
  holds the largest value among the other indices and is the earliest of them that does,
  with the same exception. In particular, when the values at 0 and 1 are equal and
  maximal, \<open>high\<close> is 1 and \<open>next_high\<close> is 0.
\<close>

theorem ranking_result:
  assumes "2 \<le> np" and "np \<le> length vals"
  shows "(\<exists>t. ranking vals np = Inr t)
    \<and> (ranking vals np = Inr (low, high, nh) \<longleftrightarrow>
         low < np \<and> high < np \<and> nh < np \<and> nh \<noteq> high
         \<and> (\<forall>i<np. vals ! low \<le> vals ! i)
         \<and> (\<forall>i<np. vals ! i = vals ! low \<longrightarrow> i \<le> low)
         \<and> (\<forall>i<np. vals ! i \<le> vals ! high)
         \<and> (\<forall>i<high. vals ! i < vals ! high \<or> (i = 0 \<and> high = 1))
         \<and> (high = 0 \<longrightarrow> vals ! 1 < vals ! 0)
         \<and> (\<forall>i<np. i \<noteq> high \<longrightarrow> vals ! i \<le> vals ! nh)
         \<and> (\<forall>i<nh. i \<noteq> high \<longrightarrow> vals ! i < vals ! nh \<or> (i = 0 \<and> nh = 1))
         \<and> (nh = 0 \<longrightarrow> high = 1 \<or> vals ! 1 < vals ! 0))
    \<and> (vals ! 0 = vals ! 1 \<and> (\<forall>i<np. vals ! i \<le> vals ! 1) \<longrightarrow>
         (\<exists>l. ranking vals np = Inr (l, 1, 0)))"
proof -
  obtain l h n where run: "ranking vals np = Inr (l, h, n)"
    and b: "l < np" "h < np" "n < np" "n \<noteq> h"
    and lo: "\<forall>i<np. vals ! l \<le> vals ! i" "\<forall>i<np. vals ! i = vals ! l \<longrightarrow> i \<le> l"
    and hi: "\<forall>i<np. vals ! i \<le> vals ! h" "\<forall>i<h. vals ! i < vals ! h \<or> (i = 0 \<and> h = 1)"
    and nx: "\<forall>i<np. i \<noteq> h \<longrightarrow> vals ! i \<le> vals ! n"
    using ranking_total [OF assms] by (elim exE conjE) (rule that)
  note ties = ranking_tie_rules [OF assms run]
  have ex: "\<exists>t. ranking vals np = Inr t"
    using run by (rule exI)
  have exact: "ranking vals np = Inr (low, high, nh) \<longleftrightarrow>
         low < np \<and> high < np \<and> nh < np \<and> nh \<noteq> high
         \<and> (\<forall>i<np. vals ! low \<le> vals ! i)
         \<and> (\<forall>i<np. vals ! i = vals ! low \<longrightarrow> i \<le> low)
         \<and> (\<forall>i<np. vals ! i \<le> vals ! high)
         \<and> (\<forall>i<high. vals ! i < vals ! high \<or> (i = 0 \<and> high = 1))
         \<and> (high = 0 \<longrightarrow> vals ! 1 < vals ! 0)
         \<and> (\<forall>i<np. i \<noteq> high \<longrightarrow> vals ! i \<le> vals ! nh)
         \<and> (\<forall>i<nh. i \<noteq> high \<longrightarrow> vals ! i < vals ! nh \<or> (i = 0 \<and> nh = 1))
         \<and> (nh = 0 \<longrightarrow> high = 1 \<or> vals ! 1 < vals ! 0)"
  proof (rule iffI)
    assume "ranking vals np = Inr (low, high, nh)"
    then have eq: "low = l" "high = h" "nh = n"
      using run by simp_all
    show "low < np \<and> high < np \<and> nh < np \<and> nh \<noteq> high
         \<and> (\<forall>i<np. vals ! low \<le> vals ! i)
         \<and> (\<forall>i<np. vals ! i = vals ! low \<longrightarrow> i \<le> low)
         \<and> (\<forall>i<np. vals ! i \<le> vals ! high)
         \<and> (\<forall>i<high. vals ! i < vals ! high \<or> (i = 0 \<and> high = 1))
         \<and> (high = 0 \<longrightarrow> vals ! 1 < vals ! 0)
         \<and> (\<forall>i<np. i \<noteq> high \<longrightarrow> vals ! i \<le> vals ! nh)
         \<and> (\<forall>i<nh. i \<noteq> high \<longrightarrow> vals ! i < vals ! nh \<or> (i = 0 \<and> nh = 1))
         \<and> (nh = 0 \<longrightarrow> high = 1 \<or> vals ! 1 < vals ! 0)"
      unfolding eq by (intro conjI) (rule b lo hi nx ties)+
  next
    assume p: "low < np \<and> high < np \<and> nh < np \<and> nh \<noteq> high
         \<and> (\<forall>i<np. vals ! low \<le> vals ! i)
         \<and> (\<forall>i<np. vals ! i = vals ! low \<longrightarrow> i \<le> low)
         \<and> (\<forall>i<np. vals ! i \<le> vals ! high)
         \<and> (\<forall>i<high. vals ! i < vals ! high \<or> (i = 0 \<and> high = 1))
         \<and> (high = 0 \<longrightarrow> vals ! 1 < vals ! 0)
         \<and> (\<forall>i<np. i \<noteq> high \<longrightarrow> vals ! i \<le> vals ! nh)
         \<and> (\<forall>i<nh. i \<noteq> high \<longrightarrow> vals ! i < vals ! nh \<or> (i = 0 \<and> nh = 1))
         \<and> (nh = 0 \<longrightarrow> high = 1 \<or> vals ! 1 < vals ! 0)"
    from p show "ranking vals np = Inr (low, high, nh)"
    proof (elim conjE)
      assume q: "low < np" "\<forall>i<np. vals ! low \<le> vals ! i"
        "\<forall>i<np. vals ! i = vals ! low \<longrightarrow> i \<le> low"
        and r: "high < np" "\<forall>i<np. vals ! i \<le> vals ! high"
        "\<forall>i<high. vals ! i < vals ! high \<or> (i = 0 \<and> high = 1)" "high = 0 \<longrightarrow> vals ! 1 < vals ! 0"
        and t: "nh < np" "nh \<noteq> high" "\<forall>i<np. i \<noteq> high \<longrightarrow> vals ! i \<le> vals ! nh"
        "\<forall>i<nh. i \<noteq> high \<longrightarrow> vals ! i < vals ! nh \<or> (i = 0 \<and> nh = 1)"
        "nh = 0 \<longrightarrow> high = 1 \<or> vals ! 1 < vals ! 0"
      have 1: "low = l"
        using b(1) lo q by (rule low_unique)
      have 2: "high = h"
        using b(2) hi ties(1) r by (rule high_unique)
      have 3: "nh = n"
        using b(3,4) nx ties(2,3) t unfolding 2 by (rule next_high_unique)
      show "ranking vals np = Inr (low, high, nh)"
        unfolding 1 2 3 by (rule run)
    qed
  qed
  have tie: "\<exists>l. ranking vals np = Inr (l, 1, 0)"
    if eq: "vals ! 0 = vals ! 1" and top: "\<forall>i<np. vals ! i \<le> vals ! 1"
  proof -
    have one: "(1 :: nat) < np" and zero: "(0 :: nat) < np"
      using assms(1) by simp_all
    have "vals ! h \<le> vals ! 1" and "vals ! 1 \<le> vals ! h"
      using top b(2) hi(1) one by simp_all
    then have mx: "vals ! h = vals ! 1"
      by simp
    have "h \<noteq> 0"
      using ties(1) eq by auto
    moreover have "\<not> 1 < h"
    proof
      assume "1 < h"
      then have "vals ! 1 < vals ! h \<or> ((1 :: nat) = 0 \<and> h = 1)"
        using hi(2) by blast
      then show False
        using mx by simp
    qed
    ultimately have h: "h = 1"
      by simp
    have "vals ! 0 \<le> vals ! n"
      using nx zero h by simp
    moreover have "vals ! n \<le> vals ! 1"
      using top b(3) by simp
    ultimately have nmax: "vals ! n = vals ! 0"
      using eq by simp
    have "\<not> 0 < n"
    proof
      assume "0 < n"
      moreover have "(0 :: nat) \<noteq> h"
        using h by simp
      ultimately have "vals ! 0 < vals ! n \<or> ((0 :: nat) = 0 \<and> n = 1)"
        using ties(2) by blast
      then show False
        using nmax b(4) h by simp
    qed
    then have "n = 0"
      by simp
    then show ?thesis
      using run h by simp
  qed
  then have tie': "vals ! 0 = vals ! 1 \<and> (\<forall>i<np. vals ! i \<le> vals ! 1) \<longrightarrow>
         (\<exists>l. ranking vals np = Inr (l, 1, 0))"
    by blast
  show ?thesis
    by (rule conjI [OF ex conjI [OF exact tie']])
qed

theorem ranking_result_witness:
  "(2 :: nat) \<le> 3 \<and> (3 :: nat) \<le> length [5, 5, 3 :: real]
   \<and> [5, 5, 3 :: real] ! 0 = [5, 5, 3] ! 1
   \<and> (\<exists>l. ranking [5, 5, 3] 3 = Inr (l, 1, 0))
   \<and> ranking [5, 5, 3] 3 = Inr (2, 1, 0)
   \<and> ranking [4, 4, 9] 3 = Inr (1, 2, 1) \<and> ranking [7, 2, 7] 3 = Inr (1, 0, 2)"
proof -
  have run: "ranking [5, 5, 3] 3 = Inr (2, 1, 0)" "ranking [4, 4, 9] 3 = Inr (1, 2, 1)"
    "ranking [7, 2, 7] 3 = Inr (1, 0, 2)"
    by code_simp+
  have len: "(2 :: nat) \<le> 3" "(3 :: nat) \<le> length [5, 5, 3 :: real]"
    by simp_all
  have top: "[5, 5, 3 :: real] ! 0 = [5, 5, 3] ! 1 \<and> (\<forall>i<3. [5, 5, 3 :: real] ! i \<le> [5, 5, 3] ! 1)"
    by (simp add: less_Suc_eq numeral_3_eq_3)
  have "\<exists>l. ranking [5, 5, 3] 3 = Inr (l, 1, 0)"
    by (rule ranking_result [OF len, THEN conjunct2, THEN conjunct2, THEN mp, OF top])
  then show ?thesis
    using run by simp
qed


text \<open>
  C7 as stated fails: the earlier index does not win a tie. With the values 4, 4, 9 the
  minimum is shared by the indices 0 and 1 and \<open>low\<close> is 1; with 5, 5, 3 the maximum is
  shared by 0 and 1 and \<open>high\<close> is 1.
\<close>

theorem ranking_ties_counterexample:
  "ranking [4, 4, 9] 3 = Inr (1, 2, 1) \<and> [4, 4, 9 :: real] ! 0 = [4, 4, 9] ! 1
   \<and> ranking [5, 5, 3] 3 = Inr (2, 1, 0) \<and> [5, 5, 3 :: real] ! 0 = [5, 5, 3] ! 1"
  by code_simp

subsection \<open>C8: an empty or ragged simplex\<close>

text \<open>
  C8, as amended. \<open>minimize\<close> does not validate the simplex it is given and never fails
  with \<open>InvalidInputError\<close>: its only failures are the \<open>runtime_error\<close> of line 106 and an
  access out of range. On the empty simplex it reads \<open>initial_simplex[0]\<close> at line 48,
  whatever the objective and the configuration are.
\<close>

theorem minimize_does_not_validate:
  "minimize cfg f [] = Inl OutOfRange \<and> minimize cfg f initial_simplex \<noteq> Inl InvalidInputError"
proof
  show "minimize cfg f [] = Inl OutOfRange"
    by (simp add: minimize_def initialise_def read_at_def)
  show "minimize cfg f initial_simplex \<noteq> Inl InvalidInputError"
    using minimize_errors [of cfg f initial_simplex InvalidInputError] by auto
qed

theorem minimize_does_not_validate_witness:
  "minimize settings (\<lambda>v. 0) [] = Inl OutOfRange
   \<and> minimize settings (\<lambda>v. 0) [[0, 0], [1]] = Inl OutOfRange
   \<and> minimize settings (\<lambda>v. 0) [[0, 0], [1]] \<noteq> Inl InvalidInputError"
proof -
  have "minimize settings (\<lambda>v. 0) [[0, 0], [1]] = Inl OutOfRange"
    unfolding settings_def by code_simp
  then show ?thesis
    using minimize_does_not_validate [of settings "\<lambda>v. 0" "[[0, 0], [1]]"] by simp
qed

text \<open>
  C8 as stated fails: a simplex whose rows differ in length is not rejected (here the run
  even returns, with a vertex of three coordinates), and the failure on the empty simplex
  is the access out of range, not \<open>InvalidInputError\<close>.
\<close>

theorem ragged_simplex_counterexample:
  "minimize settings (\<lambda>v. 0) [[0, 0], [1, 1, 7]]
     = Inr ([1, 1, 7], \<lparr>num_dimensions = 2, num_points = 2, num_evals = 0,
         simplex = [[1, 1, 7], [0, 0]], func_vals = [0, 0], func_min = 0,
         simplex_sums = [1, 1]\<rparr>)
   \<and> minimize settings (\<lambda>v. 0) [] = Inl OutOfRange"
  unfolding settings_def by code_simp

subsection \<open>C9: element accesses on a well-formed simplex\<close>

text \<open>
  The overload of lines 17-38 builds a simplex of \<open>num_dimensions_ + 1\<close> rows of
  \<open>num_dimensions_\<close> coordinates and hands it to the overload of line 40, which takes
  \<open>num_dimensions_\<close> from the number of rows and \<open>num_points_\<close> from the length of the first
  row. On the simplex of a point with two coordinates and two steps the run reads outside a
  row.
\<close>

lemma minimize_deltas_out_of_range: "minimize_deltas cfg f [0, 0] [1, 1] = Inl OutOfRange"
  by code_simp

text \<open>
  C9. The claim is that on every well-formed simplex of \<open>N + 1\<close> rows of length \<open>N\<close>
  (\<open>N \<ge> 1\<close>) every element access of \<open>minimize\<close> and \<open>reflect\<close> is within bounds. The
  code does the opposite: on every such simplex the first evaluation loop (lines 57-60)
  runs \<open>j\<close> up to the number of rows, \<open>N + 1\<close>, and reads \<open>simplex_[0][N]\<close>, one past the end
  of row 0, before the objective has been called once.
\<close>

theorem minimize_well_formed_out_of_range:
  assumes "length initial_simplex = N + 1"
    and "\<forall>row \<in> set initial_simplex. length row = N"
    and "1 \<le> N"
  shows "minimize cfg f initial_simplex = Inl OutOfRange"
proof -
  have row0: "length (initial_simplex ! 0) = N"
    using assms(1,2) by simp
  have "for_loop (N + 1) (load_point initial_simplex 0) ep = Inl OutOfRange" for ep
    using assms(1) row0 by (intro load_row_short) simp_all
  then have "evaluate_vertex f (N + 1) initial_simplex 0 t = Inl OutOfRange" for t
    by (cases t) (simp add: evaluate_vertex_def)
  then have "for_loop N (evaluate_vertex f (N + 1) initial_simplex) t = Inl OutOfRange" for t
    using assms(3) by (intro for_loop_first) simp_all
  then have "initialise f initial_simplex = Inl OutOfRange"
    using assms(1) row0 by (simp add: initialise_def Let_def read_at_def)
  then show ?thesis
    by (simp add: minimize_def)
qed

theorem minimize_well_formed_out_of_range_witness:
  "length [[0, 0], [1, 0], [0, 1 :: real]] = 2 + 1
   \<and> 1 \<le> (2 :: nat)
   \<and> minimize \<lparr>EPSILON = 1, function_tol = 1, MAX_ITERS = 100\<rparr> (\<lambda>v. v ! 0 + v ! 1)
        [[0, 0], [1, 0], [0, 1]] = Inl OutOfRange"
  using minimize_well_formed_out_of_range [of "[[0, 0], [1, 0], [0, 1]]" 2
      "\<lparr>EPSILON = 1, function_tol = 1, MAX_ITERS = 100\<rparr>" "\<lambda>v. v ! 0 + v ! 1"]
  by simp

text \<open>
  The simplices on which \<open>minimize\<close> stays inside its vectors are those with at least two
  entries in row 0, as many rows as row 0 has entries, and no row shorter than that: on a
  simplex of \<open>N + 1\<close> rows of \<open>N\<close> coordinates it never does.
\<close>

lemma minimize_out_of_range_iff:
  "minimize cfg f initial_simplex = Inl OutOfRange \<longleftrightarrow>
     \<not> (initial_simplex \<noteq> [] \<and> 2 \<le> length (initial_simplex ! 0)
        \<and> length (initial_simplex ! 0) \<le> length initial_simplex
        \<and> (\<forall>i<length (initial_simplex ! 0). length initial_simplex \<le> length (initial_simplex ! i)))"
proof (cases "initialise f initial_simplex")
  case (Inl e)
  then have e: "e = OutOfRange"
    using oor_initialise [of f initial_simplex] by simp
  have "\<not> (initial_simplex \<noteq> []
        \<and> length (initial_simplex ! 0) \<le> length initial_simplex
        \<and> (\<forall>i<length (initial_simplex ! 0). length initial_simplex \<le> length (initial_simplex ! i)))"
    using initialise_completes [of initial_simplex f] Inl by auto
  then show ?thesis
    using Inl e by (auto simp: minimize_def)
next
  case (Inr s)
  note r = initialise_Inr [OF Inr]
  have shape: "initial_simplex \<noteq> []" "length (initial_simplex ! 0) \<le> length initial_simplex"
    "\<forall>i<length (initial_simplex ! 0). length initial_simplex \<le> length (initial_simplex ! i)"
    using r(1,3) initialise_in_range [OF Inr] by (auto simp: in_range_def)
  show ?thesis
  proof (cases "2 \<le> num_points s")
    case True
    then have "nm_loop cfg f s \<noteq> Inl OutOfRange"
      using initialise_in_range [OF Inr] by (intro nm_loop_safe)
    then show ?thesis
      using Inr True shape r(1) by (simp add: minimize_def)
  next
    case False
    then have "read_at (func_vals s) 1 = Inl OutOfRange"
      using r(2) by (simp add: read_at_def)
    then have "ranking (func_vals s) (num_points s) = Inl OutOfRange"
      by (cases "read_at (func_vals s) 0") (auto simp: ranking_def read_at_def split: if_splits)
    then have "nm_step cfg f s = Inl OutOfRange"
      by (simp add: nm_step_def)
    then have "nm_loop cfg f s = Inl OutOfRange"
      by (simp add: nm_loop.simps)
    then show ?thesis
      using Inr False r(1) by (simp add: minimize_def)
  qed
qed

subsection \<open>C10: the convergence test comes before the budget check\<close>

text \<open>
  C10. In every pass the convergence test is made before the evaluation budget is looked
  at. When the ranking of the current values meets the function tolerance, the loop
  returns the best vertex with success whatever the evaluation counter is (nothing is
  assumed about \<open>num_evals\<close>, which is returned as it was); and when the run ends with
  \<open>MaxIterationsExceeded\<close>, it does so in a pass whose convergence test failed and whose
  counter had reached \<open>MAX_ITERS_\<close>.
\<close>

theorem convergence_before_budget:
  "(ranking (func_vals s) (num_points s) = Inr (low, high, nh)
      \<and> tolerance cfg (func_vals s) low high = Inr tol \<and> tol < function_tol cfg
      \<and> low < length (simplex s)
      \<longrightarrow> (\<exists>s'. nm_loop cfg f s = Inr (simplex s ! low, s') \<and> num_evals s' = num_evals s))
   \<and> (nm_loop cfg f s = Inl MaxIterationsExceeded
      \<longrightarrow> (\<exists>t low high nh tol. nm_reaches cfg f s t
            \<and> ranking (func_vals t) (num_points t) = Inr (low, high, nh)
            \<and> tolerance cfg (func_vals t) low high = Inr tol
            \<and> \<not> tol < function_tol cfg \<and> MAX_ITERS cfg \<le> num_evals t))"
proof (intro conjI impI)
  assume a: "ranking (func_vals s) (num_points s) = Inr (low, high, nh)
      \<and> tolerance cfg (func_vals s) low high = Inr tol \<and> tol < function_tol cfg
      \<and> low < length (simplex s)"
  then have "nm_loop cfg f s = return_best s low"
    using nm_loop_converged [of s low high nh cfg tol f] by simp
  moreover have "low < length (func_vals s)"
    using a by (simp add: tolerance_Inr)
  ultimately show "\<exists>s'. nm_loop cfg f s = Inr (simplex s ! low, s') \<and> num_evals s' = num_evals s"
    using a by (simp add: return_best_eq)
next
  assume "nm_loop cfg f s = Inl MaxIterationsExceeded"
  then obtain t where "nm_reaches cfg f s t" and "nm_step cfg f t = Inl MaxIterationsExceeded"
    using nm_loop_Inl by blast
  then show "\<exists>t low high nh tol. nm_reaches cfg f s t
            \<and> ranking (func_vals t) (num_points t) = Inr (low, high, nh)
            \<and> tolerance cfg (func_vals t) low high = Inr tol
            \<and> \<not> tol < function_tol cfg \<and> MAX_ITERS cfg \<le> num_evals t"
    using nm_step_MaxIterationsExceeded by blast
qed

theorem convergence_before_budget_witness:
  "MAX_ITERS settings < num_evals flat
   \<and> nm_loop settings (\<lambda>v. 5) flat
       = Inr ([0, 1], flat\<lparr>simplex := [[0, 1], [1, 0], [0, 0]], func_min := 5\<rparr>)
   \<and> nm_loop settings (\<lambda>v. v ! 0 + v ! 1) spent = Inl MaxIterationsExceeded
   \<and> (\<exists>t low high nh tol. nm_reaches settings (\<lambda>v. v ! 0 + v ! 1) spent t
        \<and> ranking (func_vals t) (num_points t) = Inr (low, high, nh)
        \<and> tolerance settings (func_vals t) low high = Inr tol
        \<and> \<not> tol < function_tol settings \<and> MAX_ITERS settings \<le> num_evals t)"
proof -
  have 1: "nm_loop settings (\<lambda>v. 5) flat
       = Inr ([0, 1], flat\<lparr>simplex := [[0, 1], [1, 0], [0, 0]], func_min := 5\<rparr>)"
    unfolding settings_def flat_def by code_simp
  have 2: "nm_loop settings (\<lambda>v. v ! 0 + v ! 1) spent = Inl MaxIterationsExceeded"
    unfolding settings_def spent_def by code_simp
  have 3: "MAX_ITERS settings < num_evals flat"
    by (simp add: settings_def flat_def)
  show ?thesis
    using 1 2 3 convergence_before_budget [of spent _ _ _ settings _ "\<lambda>v. v ! 0 + v ! 1"]
    by simp
qed

end
